theory Spec2Isabelle
  imports Main
begin

section \<open>The convenience layer of data-diff: \<open>data_diff/__init__.py\<close>\<close>

text \<open>
  The module defines the class \<open>TableRef\<close> and the function \<open>diff_tables\<close>, which wires
  two table references into two table segments and hands them to a differ.  Everything
  it calls (\<open>connect_to_uri\<close>, \<open>parse_table_name\<close>, \<open>TableSegment\<close>,
  \<open>TableDiffer\<close> and the differ's own \<open>diff_tables\<close> method) is imported from modules
  that are not part of the sources at hand.  The embedding therefore takes these
  collaborators as parameters (the record \<open>env\<close>): each may fail, and each may read and
  change the world outside the program (the databases).  Every call to a collaborator is
  written to a trace, with its arguments and its result, so that the order and the
  arguments of the calls can be stated.
\<close>

subsection \<open>Values\<close>

text \<open>
  Python exceptions are values.  The first three are the failures the specification
  names; \<open>TypeError\<close> is what Python raises when a call gets the wrong number of
  arguments, \<open>InvalidReference\<close> stands for a reference that names no object.
\<close>

datatype error =
    ConnectivityError
  | SchemaError
  | PreconditionViolation
  | TypeError
  | InvalidReference

text \<open>
  Modelled from the spec: \<open>DbKey\<close> and \<open>DbTime\<close> are imported from
  \<open>data_diff/diff_tables.py\<close>, which is not among the sources.  The specification asks
  for a key domain with a total order (numeric or lexicographically comparable) and for
  times that bound a closed interval; both are integers here.
\<close>

type_synonym DbKey = int

type_synonym DbTime = int

text \<open>The class \<open>TableRef\<close> (lines 15-27): two attributes, set by \<open>__init__\<close>.\<close>

record TableRef =
  db_uri :: string
  table_name :: string

text \<open>
  Objects live in a store and are passed by reference, so that \<open>diff_tables(t, t)\<close> (one
  object on both sides) differs from a call with two equal objects.  A reference is an
  index into the store.
\<close>

type_synonym ref = nat

record 'w state =
  heap :: "TableRef list"
  world :: 'w

text \<open>\<open>TableRef(db_uri, table_name)\<close>: a new object is allocated and \<open>__init__\<close> (lines 21-23)
  stores both arguments.\<close>

definition TableRef_init :: "string \<Rightarrow> string \<Rightarrow> 'w state \<Rightarrow> ref \<times> 'w state" where
  "TableRef_init uri name s =
     (length (heap s), s\<lparr>heap := heap s @ [\<lparr>db_uri = uri, table_name = name\<rparr>]\<rparr>)"

text \<open>The keyword arguments that \<open>create_table_segment\<close> receives as \<open>**kwargs\<close> and passes on
  to \<open>TableSegment\<close> (lines 70-76).\<close>

record segment_kwargs =
  key_column :: string
  update_column :: "string option"
  extra_columns :: "string list"
  start_key :: "DbKey option"
  end_key :: "DbKey option"
  min_time :: "DbTime option"
  max_time :: "DbTime option"

text \<open>
  The keyword arguments of \<open>diff_tables\<close> (lines 35-57), in the order of the signature.
  A call that leaves an argument out is a call with the default value of that argument:
  see \<open>defaults\<close> below.  \<open>max_threadpool_size\<close> is an \<open>Optional[int]\<close>: \<open>None\<close> is a value
  the caller can pass.
\<close>

record diff_tables_kwargs = segment_kwargs +
  bisection_factor :: int
  bisection_threshold :: int
  threaded :: bool
  max_threadpool_size :: "int option"
  debug :: bool
  db_thread_count :: int

subsection \<open>The collaborators and the trace of their calls\<close>

text \<open>One event per call of a collaborator: the arguments as passed, then the result.\<close>

datatype ('db, 'path, 'seg, 'dif, 'it) event =
    is_Connect_to_uri: Connect_to_uri string int "error + 'db"
  | is_Parse_table_name: Parse_table_name string "error + 'path"
  | is_New_TableSegment: New_TableSegment 'db 'path segment_kwargs "error + 'seg"
  | is_New_TableDiffer: New_TableDiffer int int bool bool "int option" "error + 'dif"
  | is_Differ_diff_tables: Differ_diff_tables 'dif 'seg 'seg "error + 'it"

text \<open>
  The imported names.  \<open>connect_to_uri uri thread_count\<close>, \<open>parse_table_name name\<close>,
  \<open>TableSegment db path kwargs\<close>, \<open>TableDiffer bisection_factor bisection_threshold debug
  threaded max_threadpool_size\<close> (the keyword arguments of lines 83-87, in that order)
  and \<open>differ.diff_tables(segment1, segment2)\<close>.
\<close>

record ('w, 'db, 'path, 'seg, 'dif, 'it) env =
  connect_to_uri :: "string \<Rightarrow> int \<Rightarrow> 'w \<Rightarrow> (error + 'db) \<times> 'w"
  parse_table_name :: "string \<Rightarrow> 'w \<Rightarrow> (error + 'path) \<times> 'w"
  TableSegment :: "'db \<Rightarrow> 'path \<Rightarrow> segment_kwargs \<Rightarrow> 'w \<Rightarrow> (error + 'seg) \<times> 'w"
  TableDiffer :: "int \<Rightarrow> int \<Rightarrow> bool \<Rightarrow> bool \<Rightarrow> int option \<Rightarrow> 'w \<Rightarrow> (error + 'dif) \<times> 'w"
  differ_diff_tables :: "'dif \<Rightarrow> 'seg \<Rightarrow> 'seg \<Rightarrow> 'w \<Rightarrow> (error + 'it) \<times> 'w"
  DEFAULT_BISECTION_THRESHOLD :: int
  DEFAULT_BISECTION_FACTOR :: int

text \<open>
  A computation takes the state and returns a result or an error, the new state and the
  events of the calls it made, oldest first.
\<close>

type_synonym ('a, 'w, 'ev) comp = "'w state \<Rightarrow> (error + 'a) \<times> 'w state \<times> 'ev list"

definition bind :: "('a, 'w, 'ev) comp \<Rightarrow> ('a \<Rightarrow> ('b, 'w, 'ev) comp) \<Rightarrow> ('b, 'w, 'ev) comp" where
  "bind m f s =
     (case m s of
        (Inl e, s1, tr1) \<Rightarrow> (Inl e, s1, tr1)
      | (Inr a, s1, tr1) \<Rightarrow> (case f a s1 of (r, s2, tr2) \<Rightarrow> (r, s2, tr1 @ tr2)))"

definition raise :: "error \<Rightarrow> ('a, 'w, 'ev) comp" where
  "raise e s = (Inl e, s, [])"

text \<open>A call of a collaborator: it runs on the world, and the call is logged.\<close>

definition call :: "((error + 'a) \<Rightarrow> 'ev) \<Rightarrow> ('w \<Rightarrow> (error + 'a) \<times> 'w) \<Rightarrow> ('a, 'w, 'ev) comp" where
  "call ev f s = (case f (world s) of (r, w) \<Rightarrow> (r, s\<lparr>world := w\<rparr>, [ev r]))"

text \<open>Reading an attribute of the object behind a reference.\<close>

definition getattr :: "ref \<Rightarrow> (TableRef \<Rightarrow> 'a) \<Rightarrow> ('a, 'w, 'ev) comp" where
  "getattr r field s =
     (if r < length (heap s) then (Inr (field (heap s ! r)), s, [])
      else (Inl InvalidReference, s, []))"

text \<open>A list comprehension \<open>[f(t) for t in ts]\<close>: left to right, stopping at the first error.\<close>

fun for_each :: "('a \<Rightarrow> ('b, 'w, 'ev) comp) \<Rightarrow> 'a list \<Rightarrow> ('b list, 'w, 'ev) comp" where
  "for_each f [] = (\<lambda>s. (Inr [], s, []))"
| "for_each f (t # ts) =
     bind (f t) (\<lambda>x. bind (for_each f ts) (\<lambda>xs s. (Inr (x # xs), s, [])))"

subsection \<open>\<open>TableRef.create_table_segment\<close> and \<open>diff_tables\<close>\<close>

text \<open>Lines 25-27.  \<open>thread_count\<close> is a named parameter, so it is not part of \<open>kwargs\<close>.\<close>

definition create_table_segment ::
  "('w, 'db, 'path, 'seg, 'dif, 'it) env \<Rightarrow> ref \<Rightarrow> int \<Rightarrow> segment_kwargs \<Rightarrow>
   ('seg, 'w, ('db, 'path, 'seg, 'dif, 'it) event) comp" where
  "create_table_segment env self thread_count kwargs =
     bind (getattr self db_uri) (\<lambda>uri.
     bind (call (Connect_to_uri uri thread_count) (connect_to_uri env uri thread_count)) (\<lambda>db.
     bind (getattr self table_name) (\<lambda>name.
     bind (call (Parse_table_name name) (parse_table_name env name)) (\<lambda>path.
     call (New_TableSegment db path kwargs) (TableSegment env db path kwargs)))))"

text \<open>The default values of the keyword arguments (lines 35-57).\<close>

definition defaults :: "('w, 'db, 'path, 'seg, 'dif, 'it) env \<Rightarrow> diff_tables_kwargs" where
  "defaults env =
     \<lparr>key_column = ''id'',
      update_column = None,
      extra_columns = [],
      start_key = None,
      end_key = None,
      min_time = None,
      max_time = None,
      bisection_factor = DEFAULT_BISECTION_FACTOR env,
      bisection_threshold = DEFAULT_BISECTION_THRESHOLD env,
      threaded = True,
      max_threadpool_size = Some 1,
      debug = False,
      db_thread_count = 1\<rparr>"

text \<open>Lines 67-89.  The two segments are unpacked into the two arguments of the differ's
  \<open>diff_tables\<close>; its result is returned as it is.\<close>

definition diff_tables ::
  "('w, 'db, 'path, 'seg, 'dif, 'it) env \<Rightarrow> ref \<Rightarrow> ref \<Rightarrow> diff_tables_kwargs \<Rightarrow>
   ('it, 'w, ('db, 'path, 'seg, 'dif, 'it) event) comp" where
  "diff_tables env table1 table2 kw =
     bind (for_each
        (\<lambda>t. create_table_segment env t (db_thread_count kw)
           \<lparr>key_column = key_column kw,
            update_column = update_column kw,
            extra_columns = extra_columns kw,
            start_key = start_key kw,
            end_key = end_key kw,
            min_time = min_time kw,
            max_time = max_time kw\<rparr>)
        [table1, table2]) (\<lambda>segments.
     bind (call
        (New_TableDiffer (bisection_factor kw) (bisection_threshold kw) (debug kw)
           (threaded kw) (max_threadpool_size kw))
        (TableDiffer env (bisection_factor kw) (bisection_threshold kw) (debug kw)
           (threaded kw) (max_threadpool_size kw))) (\<lambda>differ.
     (case segments of
        [segment1, segment2] \<Rightarrow>
          call (Differ_diff_tables differ segment1 segment2)
            (differ_diff_tables env differ segment1 segment2)
      | _ \<Rightarrow> raise TypeError)))"

text \<open>The keyword arguments that both calls of \<open>create_table_segment\<close> get (lines 70-76):
  the logical bounds of a table view.\<close>

definition logical_bounds :: "diff_tables_kwargs \<Rightarrow> segment_kwargs" where
  "logical_bounds kw =
     \<lparr>key_column = key_column kw,
      update_column = update_column kw,
      extra_columns = extra_columns kw,
      start_key = start_key kw,
      end_key = end_key kw,
      min_time = min_time kw,
      max_time = max_time kw\<rparr>"

subsection \<open>The iterator that \<open>diff_tables\<close> returns\<close>




subsection \<open>A test double for the collaborators\<close>

text \<open>
  Used to run the definitions on concrete inputs.  The world is the number of connections
  opened so far; \<open>connect_to_uri\<close> numbers the connection it opens, every other
  collaborator returns its arguments.  The two constants are arbitrary.
\<close>

type_synonym stub_db = "nat \<times> string \<times> int"

type_synonym stub_seg = "stub_db \<times> string \<times> segment_kwargs"

type_synonym stub_dif = "int \<times> int \<times> bool \<times> bool \<times> int option"

definition stub_env ::
  "(nat, stub_db, string, stub_seg, stub_dif, stub_dif \<times> stub_seg \<times> stub_seg) env" where
  "stub_env =
     \<lparr>connect_to_uri = (\<lambda>uri thread_count n. (Inr (n, uri, thread_count), Suc n)),
      parse_table_name = (\<lambda>name n. (Inr name, n)),
      TableSegment = (\<lambda>db path kwargs n. (Inr (db, path, kwargs), n)),
      TableDiffer = (\<lambda>bf bt dbg thr mts n. (Inr (bf, bt, dbg, thr, mts), n)),
      differ_diff_tables = (\<lambda>differ segment1 segment2 n. (Inr (differ, segment1, segment2), n)),
      DEFAULT_BISECTION_THRESHOLD = 16384,
      DEFAULT_BISECTION_FACTOR = 32\<rparr>"

text \<open>Two table references, as after \<open>TableRef('postgres:///', 'Rating')\<close> and
  \<open>TableRef('mysql:///', 'Rating_copy')\<close>, and no connection opened yet.\<close>

definition stub_state :: "nat state" where
  "stub_state =
     \<lparr>heap = [\<lparr>db_uri = ''postgres:///'', table_name = ''Rating''\<rparr>,
              \<lparr>db_uri = ''mysql:///'', table_name = ''Rating_copy''\<rparr>],
      world = 0\<rparr>"

text \<open>A call with key bounds, time bounds and extra columns.\<close>

definition bounded_kwargs :: diff_tables_kwargs where
  "bounded_kwargs = (defaults stub_env)\<lparr>update_column := Some ''updated_at'',
     extra_columns := [''name''], start_key := Some 1, end_key := Some 100,
     min_time := Some 5, max_time := Some 50\<rparr>"







subsection \<open>The configuration surface as the specification lists it\<close>


section \<open>The core, modelled from the specification\<close>

text \<open>
  \<open>TableSegment\<close>, \<open>TableDiffer\<close> and the differ's \<open>diff_tables\<close> are defined in
  \<open>data_diff/diff_tables.py\<close>, which is not among the sources.  What follows models them
  from the words of the specification: the Table View of its sections 3 and 4.1, the
  Bisection Differ of its section 4.2.  The claims about the convenience layer do not use
  these definitions; the claims about validation, reflexivity and order do.
\<close>

subsection \<open>Table views\<close>

text \<open>
  Modelled from the spec: a stored row of a table, which is not in the sources; it gives the
  value of every column.  Keys, times and contents are integers here; a column that is
  missing (the specification's SchemaError) is not modelled.
\<close>

type_synonym row = "string \<Rightarrow> int"

text \<open>
  Modelled from the spec: the query-capable handle that \<open>connect_to_uri\<close> returns (section 6).
  Every query of one diff is answered from the same snapshot: the handle is the content of
  each table of the database.
\<close>

type_synonym 'path database = "'path \<Rightarrow> row list"

text \<open>
  Modelled from the spec: the Table View of section 3, the class \<open>TableSegment\<close>.  It keeps the
  keyword arguments it was constructed with (key column, update column, extra columns,
  the key range \<open>[start_key, end_key)\<close>, the time range \<open>[min_time, max_time]\<close>) together
  with its source and its table identifier.  The concurrency budget belongs to the
  connection (\<open>thread_count\<close> is passed to \<open>connect_to_uri\<close>), so the view has no field for it.
\<close>

record 'path TableView = segment_kwargs +
  source :: "'path database"
  tableIdentifier :: 'path

text \<open>
  Modelled from the spec: the invariant of section 3, negated: both key bounds are set and
  \<open>start_key \<ge> end_key\<close>.
\<close>

definition malformed_range :: "segment_kwargs \<Rightarrow> bool" where
  "malformed_range kwargs =
     (case start_key kwargs of
        None \<Rightarrow> False
      | Some a \<Rightarrow> (case end_key kwargs of None \<Rightarrow> False | Some b \<Rightarrow> a \<ge> b))"

text \<open>
  Modelled from the spec: the constructor of \<open>TableSegment\<close>.  A malformed range is a
  PreconditionViolation, rejected at construction (section 7); otherwise the view holds
  what it was given.
\<close>

definition TableSegment_spec ::
  "'path database \<Rightarrow> 'path \<Rightarrow> segment_kwargs \<Rightarrow> error + 'path TableView" where
  "TableSegment_spec db path kwargs =
     (if malformed_range kwargs then Inl PreconditionViolation
      else Inr \<lparr>key_column = key_column kwargs,
                update_column = update_column kwargs,
                extra_columns = extra_columns kwargs,
                start_key = start_key kwargs,
                end_key = end_key kwargs,
                min_time = min_time kwargs,
                max_time = max_time kwargs,
                source = db,
                tableIdentifier = path\<rparr>)"

subsection \<open>The differ's configuration\<close>

text \<open>
  Modelled from the spec: the configuration of the Bisection Differ (section 4.2), the class
  \<open>TableDiffer\<close>: the bisection factor, the bisection threshold, the concurrency toggle and
  the max worker count.
\<close>

record BisectionDiffer =
  bisectionFactor :: int
  bisectionThreshold :: int
  concurrent :: bool
  maxWorkers :: "int option"

text \<open>
  Modelled from the spec: the constructor of \<open>TableDiffer\<close>.  The configuration is validated at
  construction: \<open>bisectionFactor \<ge> 2\<close> and \<open>bisectionThreshold \<ge> 1\<close> (section 4.2).  The
  specification names no error for it; the model uses PreconditionViolation.  \<open>debug\<close> is
  not part of the specification's configuration and is dropped.
\<close>

definition TableDiffer_spec ::
  "int \<Rightarrow> int \<Rightarrow> bool \<Rightarrow> bool \<Rightarrow> int option \<Rightarrow> error + BisectionDiffer" where
  "TableDiffer_spec factor threshold dbg toggle workers =
     (if factor < 2 \<or> threshold < 1 then Inl PreconditionViolation
      else Inr \<lparr>bisectionFactor = factor,
                bisectionThreshold = threshold,
                concurrent = toggle,
                maxWorkers = workers\<rparr>)"

subsection \<open>The operations of a table view (section 4.1)\<close>

text \<open>
  Modelled from the spec: a row as \<open>FetchRows\<close> returns it: the key, the update column if one is
  configured, the extra columns.
\<close>

type_synonym fetched_row = "DbKey \<times> int option \<times> int list"

text \<open>
  Modelled from the spec: the half-open key range \<open>[start, end)\<close>; a bound that is \<open>None\<close> is
  unbounded.
\<close>

definition in_key_range :: "DbKey option \<Rightarrow> DbKey option \<Rightarrow> DbKey \<Rightarrow> bool" where
  "in_key_range start end k =
     ((case start of None \<Rightarrow> True | Some a \<Rightarrow> a \<le> k) \<and>
      (case end of None \<Rightarrow> True | Some b \<Rightarrow> k < b))"

text \<open>
  Modelled from the spec: the closed time range \<open>[min_time, max_time]\<close>.
\<close>

definition in_time_range :: "DbTime option \<Rightarrow> DbTime option \<Rightarrow> DbTime \<Rightarrow> bool" where
  "in_time_range lo hi t =
     ((case lo of None \<Rightarrow> True | Some a \<Rightarrow> a \<le> t) \<and>
      (case hi of None \<Rightarrow> True | Some b \<Rightarrow> t \<le> b))"

text \<open>
  Modelled from the spec: whether a stored row belongs to a view: its key is in the key
  range and, when an update column is configured, its update time is in the time range.
\<close>

definition in_range :: "'path TableView \<Rightarrow> row \<Rightarrow> bool" where
  "in_range v r =
     (in_key_range (start_key v) (end_key v) (r (key_column v)) \<and>
      (case update_column v of
         None \<Rightarrow> True
       | Some c \<Rightarrow> in_time_range (min_time v) (max_time v) (r c)))"

text \<open>
  Modelled from the spec: the rows of the source table that belong to the view, in the order
  in which the table stores them.
\<close>

definition rows_in_range :: "'path TableView \<Rightarrow> row list" where
  "rows_in_range v = filter (in_range v) (source v (tableIdentifier v))"

text \<open>
  Modelled from the spec: \<open>RowCount\<close> counts the rows within the key range and the time range.
\<close>

definition RowCount :: "'path TableView \<Rightarrow> nat" where
  "RowCount v = length (rows_in_range v)"

text \<open>
  Modelled from the spec: the columns of a row that are part of its identity and content.
\<close>

definition project :: "'path TableView \<Rightarrow> row \<Rightarrow> fetched_row" where
  "project v r = (r (key_column v), map_option r (update_column v), map r (extra_columns v))"

text \<open>
  Modelled from the spec: \<open>FetchRows\<close> returns the rows of the view, ordered by key ascending.
\<close>

definition FetchRows :: "'path TableView \<Rightarrow> fetched_row list" where
  "FetchRows v = sort_key fst (map (project v) (rows_in_range v))"

text \<open>
  Modelled from the spec: \<open>Checksum\<close> is a commutative aggregate over the rows of the view, the
  sum of a hash of each row, and 0 for an empty range.  The specification leaves the hash
  open (section 9); it is the parameter \<open>h\<close>.
\<close>

definition Checksum :: "(fetched_row \<Rightarrow> int) \<Rightarrow> 'path TableView \<Rightarrow> int" where
  "Checksum h v = sum_list (map h (FetchRows v))"

text \<open>
  Modelled from the spec: narrowing the lower bound of a key range.  Narrowing never
  widens: the new bound is the larger of the two.
\<close>

definition narrow_start :: "DbKey option \<Rightarrow> DbKey option \<Rightarrow> DbKey option" where
  "narrow_start old new =
     (case old of None \<Rightarrow> new | Some a \<Rightarrow> (case new of None \<Rightarrow> Some a | Some b \<Rightarrow> Some (max a b)))"

text \<open>
  Modelled from the spec: narrowing the upper bound of a key range: the smaller of the two.
\<close>

definition narrow_end :: "DbKey option \<Rightarrow> DbKey option \<Rightarrow> DbKey option" where
  "narrow_end old new =
     (case old of None \<Rightarrow> new | Some a \<Rightarrow> (case new of None \<Rightarrow> Some a | Some b \<Rightarrow> Some (min a b)))"

text \<open>
  Modelled from the spec: \<open>Sub-range(start, end)\<close> is a view that shares every other attribute
  and is narrowed to \<open>[start, end)\<close>, the intersection of its key range with \<open>[start, end)\<close>.
  It is pure construction.
\<close>

definition Sub_range :: "'path TableView \<Rightarrow> DbKey option \<Rightarrow> DbKey option \<Rightarrow> 'path TableView" where
  "Sub_range v start end =
     v\<lparr>start_key := narrow_start (start_key v) start, end_key := narrow_end (end_key v) end\<rparr>"

text \<open>
  Modelled from the spec: \<open>Checkpoints(n)\<close> returns at most \<open>n - 1\<close> split points, as evenly
  spread as practical.  They are sampled from the keys that exist (the sorted list
  \<open>keys\<close>), at the positions \<open>i * length keys div n\<close>; a position that would leave the
  first sub-range empty and a split point that repeats the one before are left out, so no
  sub-range is empty and there are fewer split points when there are fewer keys.
\<close>

definition Checkpoints :: "nat \<Rightarrow> DbKey list \<Rightarrow> DbKey list" where
  "Checkpoints n keys =
     remdups_adj (map (\<lambda>p. keys ! p)
       (filter (\<lambda>p. 0 < p) (map (\<lambda>i. i * length keys div n) [1..<n])))"

text \<open>
  Modelled from the spec: the keys against which the shared checkpoints are chosen (section 4.2,
  step 4): the union of the keys of both sides in the current range, in ascending order.
\<close>

definition key_domain :: "'path TableView \<Rightarrow> 'path TableView \<Rightarrow> DbKey list" where
  "key_domain a b =
     sorted_list_of_set (set (map fst (FetchRows a)) \<union> set (map fst (FetchRows b)))"

text \<open>
  Modelled from the spec: the sub-ranges that the split points cut: \<open>[start, c1), [c1, c2), ...\<close>
  and a last one that is unbounded above.
\<close>

fun subranges :: "DbKey option \<Rightarrow> DbKey list \<Rightarrow> (DbKey option \<times> DbKey option) list" where
  "subranges start [] = [(start, None)]"
| "subranges start (c # cs) = (start, Some c) # subranges (Some c) cs"

subsection \<open>Difference records and the comparison of a leaf (section 3; section 4.2, step 2)\<close>

text \<open>
  Modelled from the spec: a Difference Record: a row on side A only, a row on side B only, or a
  row on both sides whose content differs, with both versions.
\<close>

datatype difference =
    Removed fetched_row
  | Added fetched_row
  | Changed fetched_row fetched_row

text \<open>
  Modelled from the spec: the key value that a Difference Record carries.
\<close>

fun difference_key :: "difference \<Rightarrow> DbKey" where
  "difference_key (Removed x) = fst x"
| "difference_key (Added y) = fst y"
| "difference_key (Changed x y) = fst x"

text \<open>
  Modelled from the spec: the direct comparison of a leaf, one merge-walk over both row
  sequences in ascending key order.
\<close>

fun merge_walk :: "fetched_row list \<Rightarrow> fetched_row list \<Rightarrow> difference list" where
  "merge_walk [] ys = map Added ys"
| "merge_walk xs [] = map Removed xs"
| "merge_walk (x # xs) (y # ys) =
     (if fst x < fst y then Removed x # merge_walk xs (y # ys)
      else if fst y < fst x then Added y # merge_walk (x # xs) ys
      else if snd x \<noteq> snd y then Changed x y # merge_walk xs ys
      else merge_walk xs ys)"

subsection \<open>The recursion (section 4.2)\<close>

text \<open>
  Modelled from the spec: how the records of the sub-ranges become one sequence.  Sequentially
  (\<open>concurrent = false\<close>) they follow one another in checkpoint order.  Run concurrently,
  sibling sub-ranges complete in any order: \<open>sched\<close> stands for the order in which they
  happened to complete.
\<close>

definition gather ::
  "BisectionDiffer \<Rightarrow> (difference list list \<Rightarrow> difference list) \<Rightarrow>
   difference list option list \<Rightarrow> difference list option" where
  "gather d sched results =
     map_option (if concurrent d then sched else concat) (those results)"

text \<open>
  Modelled from the spec: the operation \<open>DiffTables(viewA, viewB)\<close>, steps 1 to 4 of section 4.2.
  The value is the whole sequence of records.  A split that finds no checkpoint would
  compare the same range again, without end: the value is \<open>None\<close> there.
\<close>

function DiffTables ::
  "(fetched_row \<Rightarrow> int) \<Rightarrow> (difference list list \<Rightarrow> difference list) \<Rightarrow> BisectionDiffer \<Rightarrow>
   'path TableView \<Rightarrow> 'path TableView \<Rightarrow> difference list option" where
  "DiffTables h sched d a b =
     (if RowCount a = 0 \<and> RowCount b = 0 then Some []
      else if int (RowCount a) \<le> bisectionThreshold d \<or> int (RowCount b) \<le> bisectionThreshold d
      then Some (merge_walk (FetchRows a) (FetchRows b))
      else if RowCount a = RowCount b \<and> Checksum h a = Checksum h b then Some []
      else if Checkpoints (nat (bisectionFactor d)) (key_domain a b) = [] then None
      else gather d sched
             (map (\<lambda>(l, u). DiffTables h sched d (Sub_range a l u) (Sub_range b l u))
                (subranges None (Checkpoints (nat (bisectionFactor d)) (key_domain a b)))))"
  by pat_completeness auto

text \<open>Every sub-range has fewer rows than the range it was cut from: it misses the row of a
  checkpoint or the row of the smallest key.\<close>

lemma in_range_Sub_range:
  "in_range (Sub_range v l u) = (\<lambda>r. in_range v r \<and> in_key_range l u (r (key_column v)))"
  by (rule ext)
     (auto simp: in_range_def in_key_range_def Sub_range_def narrow_start_def narrow_end_def
      split: option.splits)

lemma rows_in_range_Sub_range:
  "rows_in_range (Sub_range v l u) =
     filter (\<lambda>r. in_range v r \<and> in_key_range l u (r (key_column v))) (source v (tableIdentifier v))"
proof -
  have "source (Sub_range v l u) = source v"
    and "tableIdentifier (Sub_range v l u) = tableIdentifier v"
    by (simp_all add: Sub_range_def)
  then show ?thesis by (simp add: rows_in_range_def in_range_Sub_range)
qed

lemma length_filter_mono:
  "(\<And>x. x \<in> set xs \<Longrightarrow> P x \<Longrightarrow> Q x) \<Longrightarrow> length (filter P xs) \<le> length (filter Q xs)"
  by (induction xs) auto

lemma length_filter_strict:
  assumes "\<And>x. x \<in> set xs \<Longrightarrow> P x \<Longrightarrow> Q x" and "x \<in> set xs" and "Q x" and "\<not> P x"
  shows "length (filter P xs) < length (filter Q xs)"
  using assms
proof (induction xs)
  case Nil
  then show ?case by simp
next
  case (Cons y ys)
  have le: "length (filter P ys) \<le> length (filter Q ys)"
    by (rule length_filter_mono) (simp add: Cons.prems(1))
  show ?case
  proof (cases "x = y")
    case True
    with Cons.prems le show ?thesis by simp
  next
    case False
    with Cons.prems have "x \<in> set ys" by simp
    with Cons.IH Cons.prems have "length (filter P ys) < length (filter Q ys)" by simp
    with Cons.prems(1) [of y] show ?thesis by auto
  qed
qed

lemma RowCount_Sub_range_le: "RowCount (Sub_range v l u) \<le> RowCount v"
proof -
  have "RowCount (Sub_range v l u) =
      length (filter (\<lambda>r. in_range v r \<and> in_key_range l u (r (key_column v)))
        (source v (tableIdentifier v)))"
    by (simp add: RowCount_def rows_in_range_Sub_range)
  also have "\<dots> \<le> length (filter (in_range v) (source v (tableIdentifier v)))"
    by (rule length_filter_mono) simp
  finally show ?thesis by (simp add: RowCount_def rows_in_range_def)
qed

lemma RowCount_Sub_range_less:
  assumes "r \<in> set (rows_in_range v)" and "\<not> in_key_range l u (r (key_column v))"
  shows "RowCount (Sub_range v l u) < RowCount v"
proof -
  have "RowCount (Sub_range v l u) =
      length (filter (\<lambda>r. in_range v r \<and> in_key_range l u (r (key_column v)))
        (source v (tableIdentifier v)))"
    by (simp add: RowCount_def rows_in_range_Sub_range)
  also have "\<dots> < length (filter (in_range v) (source v (tableIdentifier v)))"
    using assms by (intro length_filter_strict [where x = r]) (auto simp: rows_in_range_def)
  finally show ?thesis by (simp add: RowCount_def rows_in_range_def)
qed

lemma set_FetchRows_keys:
  "fst ` set (FetchRows v) = (\<lambda>r. r (key_column v)) ` set (rows_in_range v)"
  by (auto simp: FetchRows_def project_def image_iff)

lemma set_key_domain:
  "set (key_domain a b) =
     (\<lambda>r. r (key_column a)) ` set (rows_in_range a) \<union> (\<lambda>r. r (key_column b)) ` set (rows_in_range b)"
  by (simp add: key_domain_def set_FetchRows_keys)

lemma shrinks:
  assumes "k \<in> set (key_domain a b)" and "\<not> in_key_range l u k"
  shows "RowCount (Sub_range a l u) + RowCount (Sub_range b l u) < RowCount a + RowCount b"
proof -
  from assms(1) consider r where "r \<in> set (rows_in_range a)" "r (key_column a) = k"
    | r where "r \<in> set (rows_in_range b)" "r (key_column b) = k"
    by (auto simp: set_key_domain)
  then show ?thesis
  proof cases
    case 1
    with assms(2) have "RowCount (Sub_range a l u) < RowCount a"
      using RowCount_Sub_range_less [of r a l u] by simp
    with RowCount_Sub_range_le [of b l u] show ?thesis by simp
  next
    case 2
    with assms(2) have "RowCount (Sub_range b l u) < RowCount b"
      using RowCount_Sub_range_less [of r b l u] by simp
    with RowCount_Sub_range_le [of a l u] show ?thesis by simp
  qed
qed

lemma position_less:
  assumes "i < n" and "0 < (m::nat)"
  shows "i * m div n < m"
proof -
  from assms have "i * m < m * n" by simp
  then show ?thesis by (rule less_mult_imp_div_less)
qed

lemma Checkpoints_nth:
  assumes "c \<in> set (Checkpoints n keys)"
  shows "\<exists>p. 0 < p \<and> p < length keys \<and> c = keys ! p"
proof -
  from assms obtain i where i: "1 \<le> i" "i < n" "0 < i * length keys div n"
    and c: "c = keys ! (i * length keys div n)"
    by (auto simp: Checkpoints_def)
  from i(3) have "0 < length keys" by (cases "length keys") auto
  with i(2) have "i * length keys div n < length keys" by (rule position_less)
  with i(3) c show ?thesis by blast
qed

lemma Checkpoints_subset: "set (Checkpoints n keys) \<subseteq> set keys"
  using Checkpoints_nth by fastforce

lemma Checkpoints_interior:
  assumes "sorted keys" and "distinct keys" and "c \<in> set (Checkpoints n keys)"
  shows "hd keys < c"
proof -
  from Checkpoints_nth [OF assms(3)] obtain p where p: "0 < p" "p < length keys" "c = keys ! p"
    by blast
  from assms(1,2) have "sorted_wrt (<) keys" by (simp add: strict_sorted_iff)
  with p have "keys ! 0 < keys ! p" by (intro sorted_wrt_nth_less) auto
  moreover from p have "hd keys = keys ! 0" by (intro hd_conv_nth) auto
  ultimately show ?thesis using p by simp
qed

lemma subranges_cases:
  assumes "(l, u) \<in> set (subranges start cs)"
  shows "(l = start \<and> u = (case cs of [] \<Rightarrow> None | c # _ \<Rightarrow> Some c)) \<or> (\<exists>c\<in>set cs. l = Some c)"
  using assms by (induction cs arbitrary: start) (auto split: list.splits)

lemma split_shrinks:
  assumes cps: "Checkpoints n (key_domain a b) \<noteq> []"
    and lu: "(l, u) \<in> set (subranges None (Checkpoints n (key_domain a b)))"
  shows "RowCount (Sub_range a l u) + RowCount (Sub_range b l u) < RowCount a + RowCount b"
proof -
  let ?ks = "key_domain a b" and ?cs = "Checkpoints n (key_domain a b)"
  have sd: "sorted ?ks" "distinct ?ks" by (simp_all add: key_domain_def)
  from cps Checkpoints_subset [of n ?ks] have ne: "?ks \<noteq> []" by auto
  from subranges_cases [OF lu] show ?thesis
  proof
    assume first: "l = None \<and> u = (case ?cs of [] \<Rightarrow> None | c # _ \<Rightarrow> Some c)"
    with cps obtain c cs' where c: "?cs = c # cs'" "u = Some c" by (cases ?cs) auto
    then have "c \<in> set ?ks" using Checkpoints_subset [of n ?ks] by auto
    moreover have "\<not> in_key_range l u c" using c by (simp add: in_key_range_def)
    ultimately show ?thesis by (rule shrinks)
  next
    assume "\<exists>c\<in>set ?cs. l = Some c"
    then obtain c where c: "c \<in> set ?cs" "l = Some c" by blast
    from Checkpoints_interior [OF sd c(1)] have "hd ?ks < c" .
    then have "\<not> in_key_range l u (hd ?ks)" using c by (simp add: in_key_range_def)
    moreover have "hd ?ks \<in> set ?ks" using ne by simp
    ultimately show ?thesis by (rule shrinks [rotated])
  qed
qed

termination DiffTables
  by (relation "measure (\<lambda>(h, sched, d, a, b). RowCount a + RowCount b)")
     (auto intro: split_shrinks)

declare DiffTables.simps [simp del]

text \<open>
  Modelled from the spec: the precondition of section 3 that the key column is unique, for the
  rows of one view.
\<close>

definition unique_keys :: "'path TableView \<Rightarrow> bool" where
  "unique_keys v = distinct (map (\<lambda>r. r (key_column v)) (rows_in_range v))"

subsection \<open>A test double that runs the modelled core\<close>

text \<open>
  Two small tables: the second misses the row with key 2, has another \<open>rating\<close> and
  \<open>updated_at\<close> for key 4 and has a row with key 6.  The scheduler of the concurrent
  mode lets the last sibling finish first.
\<close>

definition stub_row :: "int \<Rightarrow> int \<Rightarrow> int \<Rightarrow> row" where
  "stub_row i t x =
     (\<lambda>c. if c = ''id'' then i else if c = ''updated_at'' then t
          else if c = ''rating'' then x else 0)"

definition stub_databases :: "string \<Rightarrow> string database" where
  "stub_databases uri path =
     (if uri = ''postgres:///'' \<and> path = ''Rating''
      then [stub_row 1 10 5, stub_row 2 10 3, stub_row 3 10 4, stub_row 4 11 1, stub_row 5 12 2]
      else if uri = ''mysql:///'' \<and> path = ''Rating_copy''
      then [stub_row 6 12 2, stub_row 1 10 5, stub_row 3 10 4, stub_row 4 13 2, stub_row 5 12 2]
      else [])"

definition stub_hash :: "fetched_row \<Rightarrow> int" where
  "stub_hash x = fst x + 31 * sum_list (snd (snd x))"

definition spec_env ::
  "(nat, string database, string, string TableView, BisectionDiffer, difference list option) env" where
  "spec_env =
     \<lparr>connect_to_uri = (\<lambda>uri thread_count n. (Inr (stub_databases uri), Suc n)),
      parse_table_name = (\<lambda>name n. (Inr name, n)),
      TableSegment = (\<lambda>db path kwargs n. (TableSegment_spec db path kwargs, n)),
      TableDiffer = (\<lambda>bf bt dbg thr mts n. (TableDiffer_spec bf bt dbg thr mts, n)),
      differ_diff_tables = (\<lambda>differ segment1 segment2 n.
         (Inr (DiffTables stub_hash (concat \<circ> rev) differ segment1 segment2), n)),
      DEFAULT_BISECTION_THRESHOLD = 16384,
      DEFAULT_BISECTION_FACTOR = 32\<rparr>"

definition small_kwargs :: diff_tables_kwargs where
  "small_kwargs = (defaults spec_env)\<lparr>extra_columns := [''rating''],
     bisection_factor := 2, bisection_threshold := 1, threaded := False\<rparr>"

section \<open>Runs of the convenience layer\<close>

text \<open>Unfolding the definitions on the test double.\<close>

lemmas run_defs = diff_tables_def create_table_segment_def bind_def call_def getattr_def
  raise_def stub_env_def stub_state_def defaults_def logical_bounds_def

lemma bindE:
  assumes "bind m f s = (res, s', tr)"
  obtains (fail) e where "m s = (Inl e, s', tr)" and "res = Inl e"
  | (ok) a s1 tr1 tr2 where "m s = (Inr a, s1, tr1)" and "f a s1 = (res, s', tr2)" and "tr = tr1 @ tr2"
  using assms unfolding bind_def by (auto split: prod.splits sum.splits)

lemma getattr_eq:
  "getattr r f s = (res, s', tr) \<longleftrightarrow>
     s' = s \<and> tr = [] \<and>
     res = (if r < length (heap s) then Inr (f (heap s ! r)) else Inl InvalidReference)"
  by (auto simp: getattr_def)

lemma call_eq:
  "call ev f s = (res, s', tr) \<longleftrightarrow>
     (\<exists>w. f (world s) = (res, w) \<and> s' = s\<lparr>world := w\<rparr> \<and> tr = [ev res])"
  by (auto simp: call_def split: prod.splits)

lemma diff_tables_flat:
  "diff_tables env table1 table2 kw =
     bind (create_table_segment env table1 (db_thread_count kw) (logical_bounds kw)) (\<lambda>segment1.
     bind (create_table_segment env table2 (db_thread_count kw) (logical_bounds kw)) (\<lambda>segment2.
     bind (call
        (New_TableDiffer (bisection_factor kw) (bisection_threshold kw) (debug kw)
           (threaded kw) (max_threadpool_size kw))
        (TableDiffer env (bisection_factor kw) (bisection_threshold kw) (debug kw)
           (threaded kw) (max_threadpool_size kw))) (\<lambda>differ.
     call (Differ_diff_tables differ segment1 segment2)
       (differ_diff_tables env differ segment1 segment2))))"
  by (rule ext) (simp add: diff_tables_def logical_bounds_def bind_def split: prod.splits sum.splits)

text \<open>What one call of \<open>create_table_segment\<close> can do.\<close>

lemma create_table_segment_cases:
  assumes "create_table_segment env r tc k s = (res, s', tr)"
  defines "u \<equiv> db_uri (heap s ! r)" and "n \<equiv> table_name (heap s ! r)"
  shows "heap s' = heap s \<and>
    ((\<not> r < length (heap s) \<and> res = Inl InvalidReference \<and> tr = []) \<or>
     (r < length (heap s) \<and>
       ((\<exists>e. res = Inl e \<and> tr = [Connect_to_uri u tc (Inl e)]) \<or>
        (\<exists>db e. res = Inl e \<and> tr = [Connect_to_uri u tc (Inr db), Parse_table_name n (Inl e)]) \<or>
        (\<exists>db p w1 w2. connect_to_uri env u tc (world s) = (Inr db, w1) \<and>
           TableSegment env db p k w2 = (res, world s') \<and>
           tr = [Connect_to_uri u tc (Inr db), Parse_table_name n (Inr p), New_TableSegment db p k res]))))"
  using assms(1) unfolding create_table_segment_def u_def n_def
  by (elim bindE; simp add: getattr_eq call_eq split: if_splits; blast?)

lemma create_table_segment_heap:
  "create_table_segment env r tc k s = (res, s', tr) \<Longrightarrow> heap s' = heap s"
  by (drule create_table_segment_cases) simp

lemma create_table_segment_ok:
  assumes "create_table_segment env r tc k s = (Inr g, s', tr)"
  shows "r < length (heap s) \<and>
     (\<exists>db p w1 w2. connect_to_uri env (db_uri (heap s ! r)) tc (world s) = (Inr db, w1) \<and>
        TableSegment env db p k w2 = (Inr g, world s') \<and>
        tr = [Connect_to_uri (db_uri (heap s ! r)) tc (Inr db),
              Parse_table_name (table_name (heap s ! r)) (Inr p),
              New_TableSegment db p k (Inr g)])"
  using create_table_segment_cases [OF assms] by auto

lemma create_table_segment_events:
  assumes "create_table_segment env r tc k s = (res, s', tr)" and "ev \<in> set tr"
  shows "(\<exists>c. ev = Connect_to_uri (db_uri (heap s ! r)) tc c) \<or>
         (\<exists>c. ev = Parse_table_name (table_name (heap s ! r)) c) \<or>
         (\<exists>db p w w'. ev = New_TableSegment db p k res \<and> TableSegment env db p k w = (res, w'))"
  using create_table_segment_cases [OF assms(1)] assms(2) by auto

text \<open>What one call of \<open>diff_tables\<close> can do: it stops at the first collaborator that fails.\<close>

lemma diff_tables_cases:
  assumes "diff_tables env table1 table2 kw s = (res, s', tr)"
  defines "tc \<equiv> db_thread_count kw" and "k \<equiv> logical_bounds kw"
    and "new_differ \<equiv> New_TableDiffer (bisection_factor kw) (bisection_threshold kw) (debug kw)
         (threaded kw) (max_threadpool_size kw)"
    and "make_differ \<equiv> TableDiffer env (bisection_factor kw) (bisection_threshold kw) (debug kw)
         (threaded kw) (max_threadpool_size kw)"
  shows
    "(\<exists>e. create_table_segment env table1 tc k s = (Inl e, s', tr) \<and> res = Inl e) \<or>
     (\<exists>g1 s1 tr1 e tr2.
        create_table_segment env table1 tc k s = (Inr g1, s1, tr1) \<and>
        create_table_segment env table2 tc k s1 = (Inl e, s', tr2) \<and>
        res = Inl e \<and> tr = tr1 @ tr2) \<or>
     (\<exists>g1 s1 tr1 g2 s2 tr2 e.
        create_table_segment env table1 tc k s = (Inr g1, s1, tr1) \<and>
        create_table_segment env table2 tc k s1 = (Inr g2, s2, tr2) \<and>
        make_differ (world s2) = (Inl e, world s') \<and> heap s' = heap s2 \<and>
        res = Inl e \<and> tr = tr1 @ tr2 @ [new_differ (Inl e)]) \<or>
     (\<exists>g1 s1 tr1 g2 s2 tr2 d w.
        create_table_segment env table1 tc k s = (Inr g1, s1, tr1) \<and>
        create_table_segment env table2 tc k s1 = (Inr g2, s2, tr2) \<and>
        make_differ (world s2) = (Inr d, w) \<and>
        differ_diff_tables env d g1 g2 w = (res, world s') \<and> heap s' = heap s2 \<and>
        tr = tr1 @ tr2 @ [new_differ (Inr d), Differ_diff_tables d g1 g2 res])"
  using assms(1) unfolding diff_tables_flat tc_def k_def new_differ_def make_differ_def
  by (elim bindE; clarsimp simp: call_eq)

lemma diff_tables_heap:
  assumes "diff_tables env table1 table2 kw s = (res, s', tr)"
  shows "heap s' = heap s"
  using diff_tables_cases [OF assms] by (auto dest!: create_table_segment_heap)

lemma diff_tables_ok:
  assumes "diff_tables env table1 table2 kw s = (Inr it, s', tr)"
  shows "table1 < length (heap s) \<and> table2 < length (heap s) \<and>
    (\<exists>db1 p1 g1 db2 p2 g2 d w1 w2 w3.
       connect_to_uri env (db_uri (heap s ! table1)) (db_thread_count kw) (world s) = (Inr db1, w1) \<and>
       connect_to_uri env (db_uri (heap s ! table2)) (db_thread_count kw) w2 = (Inr db2, w3) \<and>
       tr = [Connect_to_uri (db_uri (heap s ! table1)) (db_thread_count kw) (Inr db1),
             Parse_table_name (table_name (heap s ! table1)) (Inr p1),
             New_TableSegment db1 p1 (logical_bounds kw) (Inr g1),
             Connect_to_uri (db_uri (heap s ! table2)) (db_thread_count kw) (Inr db2),
             Parse_table_name (table_name (heap s ! table2)) (Inr p2),
             New_TableSegment db2 p2 (logical_bounds kw) (Inr g2),
             New_TableDiffer (bisection_factor kw) (bisection_threshold kw) (debug kw)
               (threaded kw) (max_threadpool_size kw) (Inr d),
             Differ_diff_tables d g1 g2 (Inr it)])"
proof -
  from diff_tables_cases [OF assms] obtain g1 s1 tr1 g2 s2 tr2 d where
    1: "create_table_segment env table1 (db_thread_count kw) (logical_bounds kw) s = (Inr g1, s1, tr1)"
    and 2: "create_table_segment env table2 (db_thread_count kw) (logical_bounds kw) s1 = (Inr g2, s2, tr2)"
    and tr: "tr = tr1 @ tr2 @ [New_TableDiffer (bisection_factor kw) (bisection_threshold kw)
       (debug kw) (threaded kw) (max_threadpool_size kw) (Inr d), Differ_diff_tables d g1 g2 (Inr it)]"
    by auto
  have h: "heap s1 = heap s" using 1 by (rule create_table_segment_heap)
  from create_table_segment_ok [OF 1] obtain db1 p1 w1 where
    a: "table1 < length (heap s)"
      "connect_to_uri env (db_uri (heap s ! table1)) (db_thread_count kw) (world s) = (Inr db1, w1)"
      "tr1 = [Connect_to_uri (db_uri (heap s ! table1)) (db_thread_count kw) (Inr db1),
              Parse_table_name (table_name (heap s ! table1)) (Inr p1),
              New_TableSegment db1 p1 (logical_bounds kw) (Inr g1)]"
    by blast
  from create_table_segment_ok [OF 2] h obtain db2 p2 w3 where
    b: "table2 < length (heap s)"
      "connect_to_uri env (db_uri (heap s ! table2)) (db_thread_count kw) (world s1) = (Inr db2, w3)"
      "tr2 = [Connect_to_uri (db_uri (heap s ! table2)) (db_thread_count kw) (Inr db2),
              Parse_table_name (table_name (heap s ! table2)) (Inr p2),
              New_TableSegment db2 p2 (logical_bounds kw) (Inr g2)]"
    by auto
  show ?thesis
    using a b tr by (intro conjI exI [of _ db1] exI [of _ p1] exI [of _ g1]
        exI [of _ db2] exI [of _ p2] exI [of _ g2] exI [of _ d] exI [of _ w1]
        exI [of _ "world s1"] exI [of _ w3]) simp_all
qed

lemma diff_tables_elim [consumes 1, case_names segment1_fails segment2_fails differ_fails differ_runs]:
  assumes "diff_tables env table1 table2 kw s = (res, s', tr)"
    and "\<And>e. create_table_segment env table1 (db_thread_count kw) (logical_bounds kw) s = (Inl e, s', tr)
           \<Longrightarrow> res = Inl e \<Longrightarrow> thesis"
    and "\<And>g1 s1 tr1 e tr2.
           create_table_segment env table1 (db_thread_count kw) (logical_bounds kw) s = (Inr g1, s1, tr1)
           \<Longrightarrow> create_table_segment env table2 (db_thread_count kw) (logical_bounds kw) s1 = (Inl e, s', tr2)
           \<Longrightarrow> res = Inl e \<Longrightarrow> tr = tr1 @ tr2 \<Longrightarrow> thesis"
    and "\<And>g1 s1 tr1 g2 s2 tr2 e.
           create_table_segment env table1 (db_thread_count kw) (logical_bounds kw) s = (Inr g1, s1, tr1)
           \<Longrightarrow> create_table_segment env table2 (db_thread_count kw) (logical_bounds kw) s1 = (Inr g2, s2, tr2)
           \<Longrightarrow> TableDiffer env (bisection_factor kw) (bisection_threshold kw) (debug kw) (threaded kw)
                 (max_threadpool_size kw) (world s2) = (Inl e, world s')
           \<Longrightarrow> res = Inl e
           \<Longrightarrow> tr = tr1 @ tr2 @ [New_TableDiffer (bisection_factor kw) (bisection_threshold kw)
                 (debug kw) (threaded kw) (max_threadpool_size kw) (Inl e)]
           \<Longrightarrow> thesis"
    and "\<And>g1 s1 tr1 g2 s2 tr2 d w.
           create_table_segment env table1 (db_thread_count kw) (logical_bounds kw) s = (Inr g1, s1, tr1)
           \<Longrightarrow> create_table_segment env table2 (db_thread_count kw) (logical_bounds kw) s1 = (Inr g2, s2, tr2)
           \<Longrightarrow> TableDiffer env (bisection_factor kw) (bisection_threshold kw) (debug kw) (threaded kw)
                 (max_threadpool_size kw) (world s2) = (Inr d, w)
           \<Longrightarrow> differ_diff_tables env d g1 g2 w = (res, world s')
           \<Longrightarrow> tr = tr1 @ tr2 @ [New_TableDiffer (bisection_factor kw) (bisection_threshold kw)
                 (debug kw) (threaded kw) (max_threadpool_size kw) (Inr d),
                 Differ_diff_tables d g1 g2 res]
           \<Longrightarrow> thesis"
  shows thesis
  using diff_tables_cases [OF assms(1)]
  apply (elim disjE exE conjE)
     apply (erule (1) assms(2))
    apply (erule (3) assms(3))
   apply (erule (4) assms(4))
  apply (erule (4) assms(5))
  done

lemma create_table_segment_event:
  assumes "create_table_segment env r tc k s = (res, s', tr)" and "ev \<in> set tr"
  shows "(\<exists>u c. ev = Connect_to_uri u tc c) \<or> is_Parse_table_name ev \<or>
         (\<exists>db p w w'. ev = New_TableSegment db p k res \<and> TableSegment env db p k w = (res, w'))"
  using create_table_segment_events [OF assms] by auto

lemma diff_tables_event:
  assumes run: "diff_tables env table1 table2 kw s = (res, s', tr)" and ev: "ev \<in> set tr"
  shows "(\<exists>u c. ev = Connect_to_uri u (db_thread_count kw) c) \<or>
         is_Parse_table_name ev \<or>
         (\<exists>db p g w w'. ev = New_TableSegment db p (logical_bounds kw) g \<and>
            TableSegment env db p (logical_bounds kw) w = (g, w')) \<or>
         (\<exists>d w w'. ev = New_TableDiffer (bisection_factor kw) (bisection_threshold kw) (debug kw)
               (threaded kw) (max_threadpool_size kw) d \<and>
            TableDiffer env (bisection_factor kw) (bisection_threshold kw) (debug kw)
               (threaded kw) (max_threadpool_size kw) w = (d, w')) \<or>
         is_Differ_diff_tables ev"
  using run
proof (cases rule: diff_tables_elim)
  case (segment1_fails e)
  from create_table_segment_event [OF segment1_fails(1) ev] show ?thesis by blast
next
  case (segment2_fails g1 s1 tr1 e tr2)
  from ev segment2_fails(4) have "ev \<in> set tr1 \<or> ev \<in> set tr2" by simp
  then show ?thesis
    using create_table_segment_event [OF segment2_fails(1)]
      create_table_segment_event [OF segment2_fails(2)] by blast
next
  case (differ_fails g1 s1 tr1 g2 s2 tr2 e)
  from ev differ_fails(5) have "ev \<in> set tr1 \<or> ev \<in> set tr2 \<or>
    ev = New_TableDiffer (bisection_factor kw) (bisection_threshold kw)
                 (debug kw) (threaded kw) (max_threadpool_size kw) (Inl e)" by auto
  then show ?thesis
    using create_table_segment_event [OF differ_fails(1)]
      create_table_segment_event [OF differ_fails(2)] differ_fails(3) by blast
next
  case (differ_runs g1 s1 tr1 g2 s2 tr2 d w)
  from ev differ_runs(5) have "ev \<in> set tr1 \<or> ev \<in> set tr2 \<or>
    ev = New_TableDiffer (bisection_factor kw) (bisection_threshold kw)
                 (debug kw) (threaded kw) (max_threadpool_size kw) (Inr d) \<or>
    ev = Differ_diff_tables d g1 g2 res" by auto
  then show ?thesis
    using create_table_segment_event [OF differ_runs(1)]
      create_table_segment_event [OF differ_runs(2)] differ_runs(3) by (elim disjE) (blast, blast, blast, simp)
qed

lemma diff_tables_differ_called:
  assumes run: "diff_tables env table1 table2 kw s = (res, s', tr)"
    and ev: "Differ_diff_tables d g1 g2 q \<in> set tr"
  shows "q = res \<and>
    (\<exists>db1 p1 db2 p2.
       tr = [Connect_to_uri (db_uri (heap s ! table1)) (db_thread_count kw) (Inr db1),
             Parse_table_name (table_name (heap s ! table1)) (Inr p1),
             New_TableSegment db1 p1 (logical_bounds kw) (Inr g1),
             Connect_to_uri (db_uri (heap s ! table2)) (db_thread_count kw) (Inr db2),
             Parse_table_name (table_name (heap s ! table2)) (Inr p2),
             New_TableSegment db2 p2 (logical_bounds kw) (Inr g2),
             New_TableDiffer (bisection_factor kw) (bisection_threshold kw) (debug kw)
               (threaded kw) (max_threadpool_size kw) (Inr d),
             Differ_diff_tables d g1 g2 q])"
  using run
proof (cases rule: diff_tables_elim)
  case (segment1_fails e)
  from create_table_segment_event [OF segment1_fails(1) ev] show ?thesis by simp
next
  case (segment2_fails g1' s1 tr1 e tr2)
  from ev segment2_fails(4)
  have "Differ_diff_tables d g1 g2 q \<in> set tr1 \<or> Differ_diff_tables d g1 g2 q \<in> set tr2" by simp
  then show ?thesis
    using create_table_segment_event [OF segment2_fails(1)]
      create_table_segment_event [OF segment2_fails(2)] by fastforce
next
  case (differ_fails g1' s1 tr1 g2' s2 tr2 e)
  from ev differ_fails(5)
  have "Differ_diff_tables d g1 g2 q \<in> set tr1 \<or> Differ_diff_tables d g1 g2 q \<in> set tr2" by simp
  then show ?thesis
    using create_table_segment_event [OF differ_fails(1)]
      create_table_segment_event [OF differ_fails(2)] by fastforce
next
  case (differ_runs g1' s1 tr1 g2' s2 tr2 d' w)
  have h: "heap s1 = heap s" using differ_runs(1) by (rule create_table_segment_heap)
  have n1: "Differ_diff_tables d g1 g2 q \<notin> set tr1"
    using create_table_segment_event [OF differ_runs(1)] by fastforce
  have n2: "Differ_diff_tables d g1 g2 q \<notin> set tr2"
    using create_table_segment_event [OF differ_runs(2)] by fastforce
  from ev differ_runs(5) n1 n2 have eq: "d' = d" "g1' = g1" "g2' = g2" "q = res" by auto
  show ?thesis
    using create_table_segment_ok [OF differ_runs(1)] create_table_segment_ok [OF differ_runs(2)]
      differ_runs(5) h eq by auto
qed

lemma create_table_segment_calls:
  assumes "create_table_segment env r tc k s = (Inr g, s', tr)"
  shows "\<exists>db p w1 w2.
     connect_to_uri env (db_uri (heap s ! r)) tc (world s) = (Inr db, w1) \<and>
     parse_table_name env (table_name (heap s ! r)) w1 = (Inr p, w2) \<and>
     TableSegment env db p k w2 = (Inr g, world s') \<and>
     tr = [Connect_to_uri (db_uri (heap s ! r)) tc (Inr db),
           Parse_table_name (table_name (heap s ! r)) (Inr p),
           New_TableSegment db p k (Inr g)]"
  using assms unfolding create_table_segment_def
  by (elim bindE; simp add: getattr_eq call_eq split: if_splits; blast?)

text \<open>A call of \<open>diff_tables\<close> that returns: the eight calls it made, each in the world the
  one before left.\<close>

lemma diff_tables_calls:
  assumes "diff_tables env table1 table2 kw s = (Inr it, s', tr)"
  shows "\<exists>db1 p1 g1 db2 p2 g2 d w1 w2 w3 w4 w5 w6 w7.
     connect_to_uri env (db_uri (heap s ! table1)) (db_thread_count kw) (world s) = (Inr db1, w1) \<and>
     parse_table_name env (table_name (heap s ! table1)) w1 = (Inr p1, w2) \<and>
     TableSegment env db1 p1 (logical_bounds kw) w2 = (Inr g1, w3) \<and>
     connect_to_uri env (db_uri (heap s ! table2)) (db_thread_count kw) w3 = (Inr db2, w4) \<and>
     parse_table_name env (table_name (heap s ! table2)) w4 = (Inr p2, w5) \<and>
     TableSegment env db2 p2 (logical_bounds kw) w5 = (Inr g2, w6) \<and>
     TableDiffer env (bisection_factor kw) (bisection_threshold kw) (debug kw) (threaded kw)
       (max_threadpool_size kw) w6 = (Inr d, w7) \<and>
     differ_diff_tables env d g1 g2 w7 = (Inr it, world s') \<and>
     tr = [Connect_to_uri (db_uri (heap s ! table1)) (db_thread_count kw) (Inr db1),
           Parse_table_name (table_name (heap s ! table1)) (Inr p1),
           New_TableSegment db1 p1 (logical_bounds kw) (Inr g1),
           Connect_to_uri (db_uri (heap s ! table2)) (db_thread_count kw) (Inr db2),
           Parse_table_name (table_name (heap s ! table2)) (Inr p2),
           New_TableSegment db2 p2 (logical_bounds kw) (Inr g2),
           New_TableDiffer (bisection_factor kw) (bisection_threshold kw) (debug kw)
             (threaded kw) (max_threadpool_size kw) (Inr d),
           Differ_diff_tables d g1 g2 (Inr it)]"
  using assms
proof (cases rule: diff_tables_elim)
  case (differ_runs g1 s1 tr1 g2 s2 tr2 d w)
  have h: "heap s1 = heap s" using differ_runs(1) by (rule create_table_segment_heap)
  from create_table_segment_calls [OF differ_runs(1)] obtain db1 p1 w1 w2 where
    a: "connect_to_uri env (db_uri (heap s ! table1)) (db_thread_count kw) (world s) = (Inr db1, w1)"
      "parse_table_name env (table_name (heap s ! table1)) w1 = (Inr p1, w2)"
      "TableSegment env db1 p1 (logical_bounds kw) w2 = (Inr g1, world s1)"
      "tr1 = [Connect_to_uri (db_uri (heap s ! table1)) (db_thread_count kw) (Inr db1),
              Parse_table_name (table_name (heap s ! table1)) (Inr p1),
              New_TableSegment db1 p1 (logical_bounds kw) (Inr g1)]"
    by blast
  from create_table_segment_calls [OF differ_runs(2)] obtain db2 p2 w4 w5 where
    b: "connect_to_uri env (db_uri (heap s1 ! table2)) (db_thread_count kw) (world s1) = (Inr db2, w4)"
      "parse_table_name env (table_name (heap s1 ! table2)) w4 = (Inr p2, w5)"
      "TableSegment env db2 p2 (logical_bounds kw) w5 = (Inr g2, world s2)"
      "tr2 = [Connect_to_uri (db_uri (heap s1 ! table2)) (db_thread_count kw) (Inr db2),
              Parse_table_name (table_name (heap s1 ! table2)) (Inr p2),
              New_TableSegment db2 p2 (logical_bounds kw) (Inr g2)]"
    by blast
  have tr': "tr = [Connect_to_uri (db_uri (heap s ! table1)) (db_thread_count kw) (Inr db1),
           Parse_table_name (table_name (heap s ! table1)) (Inr p1),
           New_TableSegment db1 p1 (logical_bounds kw) (Inr g1),
           Connect_to_uri (db_uri (heap s ! table2)) (db_thread_count kw) (Inr db2),
           Parse_table_name (table_name (heap s ! table2)) (Inr p2),
           New_TableSegment db2 p2 (logical_bounds kw) (Inr g2),
           New_TableDiffer (bisection_factor kw) (bisection_threshold kw) (debug kw)
             (threaded kw) (max_threadpool_size kw) (Inr d),
           Differ_diff_tables d g1 g2 (Inr it)]"
    using a(4) b(4) differ_runs(5) by (simp add: h)
  note facts = a(1-3) b(1-3) [unfolded h] differ_runs(3,4) tr'
  show ?thesis by (rule exI conjI facts)+
qed simp_all

lemma diff_tables_differ_called_calls:
  assumes run: "diff_tables env table1 table2 kw s = (res, s', tr)"
    and ev: "Differ_diff_tables d g1 g2 q \<in> set tr"
  shows "q = res \<and>
    (\<exists>w w'. TableDiffer env (bisection_factor kw) (bisection_threshold kw) (debug kw)
       (threaded kw) (max_threadpool_size kw) w = (Inr d, w')) \<and>
    (\<exists>w w'. differ_diff_tables env d g1 g2 w = (res, w'))"
  using run
proof (cases rule: diff_tables_elim)
  case (segment1_fails e)
  from create_table_segment_event [OF segment1_fails(1) ev] show ?thesis by simp
next
  case (segment2_fails g1' s1 tr1 e tr2)
  from ev segment2_fails(4)
  have "Differ_diff_tables d g1 g2 q \<in> set tr1 \<or> Differ_diff_tables d g1 g2 q \<in> set tr2" by simp
  then show ?thesis
    using create_table_segment_event [OF segment2_fails(1)]
      create_table_segment_event [OF segment2_fails(2)] by fastforce
next
  case (differ_fails g1' s1 tr1 g2' s2 tr2 e)
  from ev differ_fails(5)
  have "Differ_diff_tables d g1 g2 q \<in> set tr1 \<or> Differ_diff_tables d g1 g2 q \<in> set tr2" by simp
  then show ?thesis
    using create_table_segment_event [OF differ_fails(1)]
      create_table_segment_event [OF differ_fails(2)] by fastforce
next
  case (differ_runs g1' s1 tr1 g2' s2 tr2 d' w)
  have n1: "Differ_diff_tables d g1 g2 q \<notin> set tr1"
    using create_table_segment_event [OF differ_runs(1)] by fastforce
  have n2: "Differ_diff_tables d g1 g2 q \<notin> set tr2"
    using create_table_segment_event [OF differ_runs(2)] by fastforce
  from ev differ_runs(5) n1 n2 have eq: "d' = d" "g1' = g1" "g2' = g2" "q = res" by auto
  with differ_runs(3,4) show ?thesis by blast
qed

lemma diff_tables_same_ref_segments:
  assumes run: "diff_tables env t t kw s = (res, s', tr)"
    and ev: "Differ_diff_tables d g1 g2 q \<in> set tr"
    and segment: "TableSegment env = (\<lambda>db path kwargs w. (TableSegment_spec db path kwargs, w))"
    and conn: "\<forall>u tc w. fst (connect_to_uri env u tc w) = conn u tc"
    and parse: "\<forall>n w. fst (parse_table_name env n w) = parse n"
  shows "g1 = g2"
  using run
proof (cases rule: diff_tables_elim)
  case (segment1_fails e)
  from create_table_segment_event [OF segment1_fails(1) ev] show ?thesis by simp
next
  case (segment2_fails g1' s1 tr1 e tr2)
  from ev segment2_fails(4)
  have "Differ_diff_tables d g1 g2 q \<in> set tr1 \<or> Differ_diff_tables d g1 g2 q \<in> set tr2" by simp
  then show ?thesis
    using create_table_segment_event [OF segment2_fails(1)]
      create_table_segment_event [OF segment2_fails(2)] by fastforce
next
  case (differ_fails g1' s1 tr1 g2' s2 tr2 e)
  from ev differ_fails(5)
  have "Differ_diff_tables d g1 g2 q \<in> set tr1 \<or> Differ_diff_tables d g1 g2 q \<in> set tr2" by simp
  then show ?thesis
    using create_table_segment_event [OF differ_fails(1)]
      create_table_segment_event [OF differ_fails(2)] by fastforce
next
  case (differ_runs g1' s1 tr1 g2' s2 tr2 d' w)
  have n1: "Differ_diff_tables d g1 g2 q \<notin> set tr1"
    using create_table_segment_event [OF differ_runs(1)] by fastforce
  have n2: "Differ_diff_tables d g1 g2 q \<notin> set tr2"
    using create_table_segment_event [OF differ_runs(2)] by fastforce
  from ev differ_runs(5) n1 n2 have eq: "g1' = g1" "g2' = g2" by auto
  have h: "heap s1 = heap s" using differ_runs(1) by (rule create_table_segment_heap)
  from create_table_segment_calls [OF differ_runs(1)] obtain db1 p1 w1 w2 where
    a: "connect_to_uri env (db_uri (heap s ! t)) (db_thread_count kw) (world s) = (Inr db1, w1)"
      "parse_table_name env (table_name (heap s ! t)) w1 = (Inr p1, w2)"
      "TableSegment env db1 p1 (logical_bounds kw) w2 = (Inr g1', world s1)"
    by blast
  from create_table_segment_calls [OF differ_runs(2)] h obtain db2 p2 w3 w4 where
    b: "connect_to_uri env (db_uri (heap s ! t)) (db_thread_count kw) (world s1) = (Inr db2, w3)"
      "parse_table_name env (table_name (heap s ! t)) w3 = (Inr p2, w4)"
      "TableSegment env db2 p2 (logical_bounds kw) w4 = (Inr g2', world s2)"
    by auto
  from a(1) b(1) conn have "Inr db1 = conn (db_uri (heap s ! t)) (db_thread_count kw)"
    and "Inr db2 = conn (db_uri (heap s ! t)) (db_thread_count kw)"
    by (metis fst_conv)+
  then have db: "db1 = db2" by (metis Inr_inject)
  from a(2) b(2) parse have "Inr p1 = parse (table_name (heap s ! t))"
    and "Inr p2 = parse (table_name (heap s ! t))"
    by (metis fst_conv)+
  then have p: "p1 = p2" by (metis Inr_inject)
  from a(3) b(3) have "TableSegment_spec db1 p1 (logical_bounds kw) = Inr g1'"
    and "TableSegment_spec db2 p2 (logical_bounds kw) = Inr g2'"
    by (simp_all add: segment)
  with db p eq show ?thesis by simp
qed

lemmas spec_run_defs = run_defs spec_env_def small_kwargs_def TableSegment_spec_def
  TableDiffer_spec_def malformed_range_def






section \<open>Properties of the modelled core\<close>

lemma merge_walk_same: "merge_walk xs xs = []"
  by (induction xs) auto

lemma DiffTables_same: "DiffTables h sched d v v = Some []"
  by (subst DiffTables.simps) (simp add: merge_walk_same)

lemma merge_walk_keys:
  "x \<in> set (merge_walk xs ys) \<Longrightarrow> difference_key x \<in> fst ` set xs \<union> fst ` set ys"
proof (induction xs ys arbitrary: x rule: merge_walk.induct)
  case (1 ys)
  then show ?case by force
next
  case (2 v va)
  then show ?case by force
next
  case (3 a xs b ys)
  show ?case
  proof (cases "fst a < fst b")
    case True
    with "3.prems" have "x = Removed a \<or> x \<in> set (merge_walk xs (b # ys))" by simp
    then show ?thesis using "3.IH"(1) [OF True] by auto
  next
    case False
    show ?thesis
    proof (cases "fst b < fst a")
      case True
      with False "3.prems" have "x = Added b \<or> x \<in> set (merge_walk (a # xs) ys)" by simp
      then show ?thesis using "3.IH"(2) [OF False True] by auto
    next
      case nlt: False
      show ?thesis
      proof (cases "snd a \<noteq> snd b")
        case True
        with False nlt "3.prems" have "x = Changed a b \<or> x \<in> set (merge_walk xs ys)" by simp
        then show ?thesis using "3.IH"(3) [OF False nlt True] by auto
      next
        case same: False
        with False nlt "3.prems" have "x \<in> set (merge_walk xs ys)" by simp
        then show ?thesis using "3.IH"(4) [OF False nlt same] by auto
      qed
    qed
  qed
qed

lemma merge_walk_sorted:
  assumes "sorted (map fst xs)" and "sorted (map fst ys)"
  shows "sorted (map difference_key (merge_walk xs ys))"
  using assms
proof (induction xs ys rule: merge_walk.induct)
  case (1 ys)
  then show ?case by (simp add: comp_def)
next
  case (2 x xs)
  then show ?case by (simp add: comp_def)
next
  case (3 a xs b ys)
  from "3.prems" have sx: "sorted (map fst xs)" and sy: "sorted (map fst ys)"
    and ax: "\<forall>k\<in>fst ` set xs. fst a \<le> k" and bys: "\<forall>k\<in>fst ` set ys. fst b \<le> k"
    by auto
  show ?case
  proof (cases "fst a < fst b")
    case True
    have "\<forall>x\<in>set (merge_walk xs (b # ys)). fst a \<le> difference_key x"
    proof
      fix x assume "x \<in> set (merge_walk xs (b # ys))"
      from merge_walk_keys [OF this] ax bys True show "fst a \<le> difference_key x" by fastforce
    qed
    with True "3.IH"(1) [OF True sx "3.prems"(2)] show ?thesis by simp
  next
    case False
    show ?thesis
    proof (cases "fst b < fst a")
      case True
      have "\<forall>x\<in>set (merge_walk (a # xs) ys). fst b \<le> difference_key x"
      proof
        fix x assume "x \<in> set (merge_walk (a # xs) ys)"
        from merge_walk_keys [OF this] ax bys True show "fst b \<le> difference_key x" by fastforce
      qed
      with False True "3.IH"(2) [OF False True "3.prems"(1) sy] show ?thesis by simp
    next
      case nlt: False
      with False have eq: "fst a = fst b" by simp
      have le: "\<forall>x\<in>set (merge_walk xs ys). fst a \<le> difference_key x"
      proof
        fix x assume "x \<in> set (merge_walk xs ys)"
        from merge_walk_keys [OF this] ax bys eq show "fst a \<le> difference_key x" by fastforce
      qed
      show ?thesis
      proof (cases "snd a \<noteq> snd b")
        case True
        with False nlt le "3.IH"(3) [OF False nlt True sx sy] show ?thesis by simp
      next
        case same: False
        with False nlt "3.IH"(4) [OF False nlt same sx sy] show ?thesis by simp
      qed
    qed
  qed
qed

lemma FetchRows_sorted: "sorted (map fst (FetchRows v))"
  by (simp add: FetchRows_def)

lemma those_map_Some:
  "those (map f xs) = Some ys \<Longrightarrow> list_all2 (\<lambda>x y. f x = Some y) xs ys"
  by (induction xs arbitrary: ys) (auto split: option.splits)

lemma those_map_total:
  "(\<And>x. x \<in> set xs \<Longrightarrow> \<exists>y. f x = Some y) \<Longrightarrow> \<exists>ys. those (map f xs) = Some ys"
  by (induction xs) (auto split: option.splits)

lemma concat_subranges_sorted:
  assumes "sorted cs" and "\<forall>c\<in>set cs. in_key_range start None c"
    and "list_all2 (\<lambda>(l, u) ks. sorted ks \<and> (\<forall>k\<in>set ks. in_key_range l u k)) (subranges start cs) kss"
  shows "sorted (concat kss) \<and> (\<forall>k\<in>set (concat kss). in_key_range start None k)"
  using assms
proof (induction cs arbitrary: start kss)
  case Nil
  then show ?case by (auto simp: list_all2_Cons1 in_key_range_def)
next
  case (Cons c cs)
  from Cons.prems(3) obtain ks kss' where kss: "kss = ks # kss'"
    and ks: "sorted ks" "\<forall>k\<in>set ks. in_key_range start (Some c) k"
    and rest: "list_all2 (\<lambda>(l, u) ks. sorted ks \<and> (\<forall>k\<in>set ks. in_key_range l u k))
        (subranges (Some c) cs) kss'"
    by (auto simp: list_all2_Cons1)
  from Cons.prems(1) have "sorted cs" and "\<forall>c'\<in>set cs. in_key_range (Some c) None c'"
    by (auto simp: in_key_range_def)
  from Cons.IH [OF this rest]
  have ih: "sorted (concat kss')" "\<forall>k\<in>set (concat kss'). c \<le> k"
    by (auto simp: in_key_range_def)
  have cross: "\<forall>x\<in>set ks. \<forall>y\<in>set (concat kss'). x \<le> y"
  proof (intro ballI)
    fix x y assume "x \<in> set ks" "y \<in> set (concat kss')"
    with ks(2) ih(2) have "x < c" "c \<le> y" by (auto simp: in_key_range_def)
    then show "x \<le> y" by simp
  qed
  have lo1: "\<forall>k\<in>set ks. in_key_range start None k"
    using ks(2) by (auto simp: in_key_range_def)
  have lo2: "\<forall>k\<in>set (concat kss'). in_key_range start None k"
  proof
    fix k assume "k \<in> set (concat kss')"
    with ih(2) have "c \<le> k" by blast
    moreover from Cons.prems(2) have "in_key_range start None c" by simp
    ultimately show "in_key_range start None k"
      by (auto simp: in_key_range_def split: option.splits)
  qed
  from ks(1) ih(1) cross have "sorted (concat kss)" unfolding kss by (simp add: sorted_append)
  moreover from lo1 lo2 have "\<forall>k\<in>set (concat kss). in_key_range start None k"
    unfolding kss by auto
  ultimately show ?case by blast
qed

lemma key_column_Sub_range [simp]: "key_column (Sub_range v l u) = key_column v"
  by (simp add: Sub_range_def)

lemma key_domain_Sub_range:
  assumes "k \<in> set (key_domain (Sub_range a l u) (Sub_range b l u))"
  shows "k \<in> set (key_domain a b) \<and> in_key_range l u k"
  using assms unfolding set_key_domain rows_in_range_Sub_range
  by (auto simp: rows_in_range_def)

lemma sorted_Checkpoints:
  assumes "sorted keys"
  shows "sorted (Checkpoints n keys)"
proof -
  let ?ps = "filter (\<lambda>p. 0 < p) (map (\<lambda>i. i * length keys div n) [1..<n])"
  have "sorted_wrt (\<lambda>i j. i * length keys div n \<le> j * length keys div n) [1..<n]"
    by (rule sorted_wrt_mono_rel [of _ "(\<le>)"]) (auto intro: div_le_mono)
  then have "sorted (map (\<lambda>i. i * length keys div n) [1..<n])"
    by (simp add: sorted_map)
  then have ps: "sorted ?ps" by (rule sorted_wrt_filter)
  have bound: "\<forall>p\<in>set ?ps. p < length keys"
  proof
    fix p assume "p \<in> set ?ps"
    then obtain i where i: "i < n" "0 < p" "p = i * length keys div n" by auto
    then have "0 < length keys" by (cases "length keys") auto
    with i show "p < length keys" by (simp add: position_less)
  qed
  have "sorted_wrt (\<lambda>p q. keys ! p \<le> keys ! q) ?ps"
    using ps
  proof (rule sorted_wrt_mono_rel [rotated])
    fix p q assume "p \<in> set ?ps" "q \<in> set ?ps" "p \<le> q"
    with bound have "q < length keys" by blast
    with assms \<open>p \<le> q\<close> show "keys ! p \<le> keys ! q" by (rule sorted_nth_mono)
  qed
  then have "sorted (map (\<lambda>p. keys ! p) ?ps)" by (simp add: sorted_map)
  then show ?thesis unfolding Checkpoints_def by (rule sorted_remdups_adj)
qed

lemma list_all2_witness:
  assumes "list_all2 P xs ys" and "y \<in> set ys"
  shows "\<exists>x\<in>set xs. P x y"
  using assms by (induction rule: list_all2_induct) auto

lemma list_all2_map_weaken:
  assumes "list_all2 P xs ys" and "\<And>x y. x \<in> set xs \<Longrightarrow> P x y \<Longrightarrow> Q x (g y)"
  shows "list_all2 Q xs (map g ys)"
  using assms by (induction rule: list_all2_induct) auto

lemma set_key_domain_FetchRows:
  "set (key_domain a b) = fst ` set (FetchRows a) \<union> fst ` set (FetchRows b)"
  by (simp add: key_domain_def)

lemma DiffTables_sequential_sorted:
  assumes "\<not> concurrent d" and "DiffTables h sched d a b = Some out"
  shows "sorted (map difference_key out) \<and> difference_key ` set out \<subseteq> set (key_domain a b)"
  using assms
proof (induction h sched d a b arbitrary: out rule: DiffTables.induct)
  case (1 h sched d a b)
  let ?cs = "Checkpoints (nat (bisectionFactor d)) (key_domain a b)"
  let ?f = "\<lambda>(l, u). DiffTables h sched d (Sub_range a l u) (Sub_range b l u)"
  note run = "1.prems"(2) [unfolded DiffTables.simps [of h sched d a b]]
  consider (empty) "RowCount a = 0 \<and> RowCount b = 0"
    | (leaf) "\<not> (RowCount a = 0 \<and> RowCount b = 0)"
        "int (RowCount a) \<le> bisectionThreshold d \<or> int (RowCount b) \<le> bisectionThreshold d"
    | (pruned) "\<not> (RowCount a = 0 \<and> RowCount b = 0)"
        "\<not> (int (RowCount a) \<le> bisectionThreshold d \<or> int (RowCount b) \<le> bisectionThreshold d)"
        "RowCount a = RowCount b \<and> Checksum h a = Checksum h b"
    | (split) "\<not> (RowCount a = 0 \<and> RowCount b = 0)"
        "\<not> (int (RowCount a) \<le> bisectionThreshold d \<or> int (RowCount b) \<le> bisectionThreshold d)"
        "\<not> (RowCount a = RowCount b \<and> Checksum h a = Checksum h b)"
    by blast
  then show ?case
  proof cases
    case empty
    with run show ?thesis by simp
  next
    case leaf
    with run have out: "out = merge_walk (FetchRows a) (FetchRows b)" by simp
    have "sorted (map difference_key out)"
      unfolding out by (intro merge_walk_sorted FetchRows_sorted)
    moreover have "difference_key ` set out \<subseteq> set (key_domain a b)"
      unfolding out set_key_domain_FetchRows using merge_walk_keys by blast
    ultimately show ?thesis by blast
  next
    case pruned
    with run show ?thesis by simp
  next
    case split
    with run have ne: "?cs \<noteq> []" by (auto split: if_splits)
    have "gather d sched (map ?f (subranges None ?cs)) = Some out"
      using run by (simp only: split ne if_False)
    with "1.prems"(1) obtain outs where outs: "those (map ?f (subranges None ?cs)) = Some outs"
      and out: "out = concat outs"
      by (auto simp: gather_def)
    from those_map_Some [OF outs]
    have all: "list_all2 (\<lambda>x y. ?f x = Some y) (subranges None ?cs) outs" .
    have each: "sorted (map difference_key y) \<and>
        (\<forall>k\<in>set (map difference_key y). k \<in> set (key_domain a b) \<and> in_key_range l u k)"
      if "(l, u) \<in> set (subranges None ?cs)" and "?f (l, u) = Some y" for l u y
    proof -
      from that(2) have "DiffTables h sched d (Sub_range a l u) (Sub_range b l u) = Some y" by simp
      from "1.IH" [OF split ne that(1) refl "1.prems"(1) this] key_domain_Sub_range [of _ a l u b]
      show ?thesis by auto
    qed
    have all': "list_all2 (\<lambda>(l, u) ks. sorted ks \<and> (\<forall>k\<in>set ks. in_key_range l u k))
        (subranges None ?cs) (map (map difference_key) outs)"
      by (rule list_all2_map_weaken [OF all]) (use each in auto)
    have "sorted (key_domain a b)" by (simp add: key_domain_def)
    then have "sorted ?cs" by (rule sorted_Checkpoints)
    moreover have "\<forall>c\<in>set ?cs. in_key_range None None c" by (simp add: in_key_range_def)
    ultimately have "sorted (concat (map (map difference_key) outs))"
      using all' concat_subranges_sorted by blast
    then have "sorted (map difference_key out)" by (simp add: out map_concat)
    moreover have "difference_key ` set out \<subseteq> set (key_domain a b)"
    proof
      fix k assume "k \<in> difference_key ` set out"
      then obtain y where y: "y \<in> set outs" "k \<in> set (map difference_key y)"
        by (auto simp: out)
      from list_all2_witness [OF all y(1)] obtain x where
        "x \<in> set (subranges None ?cs)" "?f x = Some y" by blast
      with each [of "fst x" "snd x" y] y(2) show "k \<in> set (key_domain a b)"
        by (cases x) auto
    qed
    ultimately show ?thesis by blast
  qed
qed

lemma unique_keys_Sub_range:
  assumes "unique_keys v"
  shows "unique_keys (Sub_range v l u)"
proof -
  have "rows_in_range (Sub_range v l u) =
      filter (\<lambda>r. in_key_range l u (r (key_column v))) (rows_in_range v)"
    unfolding rows_in_range_Sub_range by (simp add: rows_in_range_def conj_commute)
  with assms show ?thesis by (simp add: unique_keys_def distinct_map_filter)
qed

lemma Checkpoints_nonempty:
  assumes "2 \<le> n" and "2 \<le> length keys"
  shows "Checkpoints n keys \<noteq> []"
proof -
  let ?m = "length keys"
  from assms have "n \<le> (n - 1) * ?m"
  proof -
    from assms have "n \<le> (n - 1) * 2" by simp
    also from assms have "\<dots> \<le> (n - 1) * ?m" by (intro mult_le_mono2) simp
    finally show ?thesis .
  qed
  with assms(1) have "0 < (n - 1) * ?m div n" by (simp add: div_greater_zero_iff)
  moreover from assms(1) have "n - 1 \<in> set [1..<n]" by simp
  ultimately have "(n - 1) * ?m div n \<in>
      set (filter (\<lambda>p. 0 < p) (map (\<lambda>i. i * ?m div n) [1..<n]))"
    by (simp only: set_filter set_map) blast
  then have "filter (\<lambda>p. 0 < p) (map (\<lambda>i. i * ?m div n) [1..<n]) \<noteq> []"
    by (metis empty_iff empty_set)
  then show ?thesis by (simp add: Checkpoints_def)
qed

lemma key_domain_length:
  assumes "unique_keys a"
  shows "RowCount a \<le> length (key_domain a b)"
proof -
  let ?A = "(\<lambda>r. r (key_column a)) ` set (rows_in_range a)"
  let ?B = "(\<lambda>r. r (key_column b)) ` set (rows_in_range b)"
  from assms have "card ?A = RowCount a"
    unfolding unique_keys_def RowCount_def by (metis distinct_card length_map set_map)
  moreover have "card ?A \<le> card (?A \<union> ?B)" by (intro card_mono) auto
  moreover have "length (key_domain a b) = card (?A \<union> ?B)"
    by (metis distinct_card distinct_sorted_list_of_set key_domain_def set_key_domain)
  ultimately show ?thesis by simp
qed

lemma DiffTables_returns:
  assumes "2 \<le> bisectionFactor d" and "1 \<le> bisectionThreshold d"
    and "unique_keys a" and "unique_keys b"
  shows "\<exists>out. DiffTables h sched d a b = Some out"
  using assms
proof (induction h sched d a b rule: DiffTables.induct)
  case (1 h sched d a b)
  let ?cs = "Checkpoints (nat (bisectionFactor d)) (key_domain a b)"
  let ?f = "\<lambda>(l, u). DiffTables h sched d (Sub_range a l u) (Sub_range b l u)"
  show ?case
  proof (cases "\<not> (RowCount a = 0 \<and> RowCount b = 0) \<and>
      \<not> (int (RowCount a) \<le> bisectionThreshold d \<or> int (RowCount b) \<le> bisectionThreshold d) \<and>
      \<not> (RowCount a = RowCount b \<and> Checksum h a = Checksum h b)")
    case False
    then show ?thesis by (subst DiffTables.simps) auto
  next
    case True
    then have c: "\<not> (RowCount a = 0 \<and> RowCount b = 0)"
      "\<not> (int (RowCount a) \<le> bisectionThreshold d \<or> int (RowCount b) \<le> bisectionThreshold d)"
      "\<not> (RowCount a = RowCount b \<and> Checksum h a = Checksum h b)"
      by blast+
    from c(2) "1.prems"(2) have "2 \<le> RowCount a" by linarith
    with key_domain_length [OF "1.prems"(3), of b] have "2 \<le> length (key_domain a b)" by simp
    moreover from "1.prems"(1) have "2 \<le> nat (bisectionFactor d)" by simp
    ultimately have ne: "?cs \<noteq> []" by (rule Checkpoints_nonempty [rotated])
    have "\<exists>y. ?f x = Some y" if "x \<in> set (subranges None ?cs)" for x
    proof -
      obtain l u where x: "x = (l, u)" by (cases x)
      from "1.IH" [OF c ne that x [symmetric] "1.prems"(1,2)
          unique_keys_Sub_range [OF "1.prems"(3)] unique_keys_Sub_range [OF "1.prems"(4)]]
      show ?thesis by (simp add: x)
    qed
    then obtain outs where "those (map ?f (subranges None ?cs)) = Some outs"
      using those_map_total [of "subranges None ?cs" ?f] by blast
    then have "\<exists>out. gather d sched (map ?f (subranges None ?cs)) = Some out"
      by (simp add: gather_def)
    then show ?thesis
      by (subst DiffTables.simps) (simp only: c ne if_False)
  qed
qed

section \<open>The claims\<close>

text \<open>
  Claim C1.  With the differ as modelled, comparing a table view with an identical view
  (the same source, the same ranges, the same columns) gives the empty sequence, for
  every configuration.  So a call of \<open>diff_tables\<close> that hands two identical views to
  the differ returns the empty sequence; and \<open>diff_tables(t, t)\<close>, the same \<open>TableRef\<close> on
  both sides, does so whenever it returns, provided that what \<open>connect_to_uri\<close> and
  \<open>parse_table_name\<close> return depends on their arguments only (both connections serve the
  same data).
\<close>

theorem diff_tables_reflexive:
  assumes differ: "differ_diff_tables env = (\<lambda>d a b w. (Inr (DiffTables h sched d a b), w))"
    and run: "diff_tables env table1 table2 kw s = (res, s', tr)"
  shows "DiffTables h sched d v v = Some [] \<and>
    (\<forall>d g q. Differ_diff_tables d g g q \<in> set tr \<longrightarrow> res = Inr (Some [])) \<and>
    (table1 = table2 \<and>
     TableSegment env = (\<lambda>db path kwargs w. (TableSegment_spec db path kwargs, w)) \<and>
     (\<forall>u tc w. fst (connect_to_uri env u tc w) = conn u tc) \<and>
     (\<forall>n w. fst (parse_table_name env n w) = parse n) \<longrightarrow>
     (\<forall>it. res = Inr it \<longrightarrow> it = Some []))"
proof (intro conjI allI impI)
  show "DiffTables h sched d v v = Some []" by (rule DiffTables_same)
next
  fix d g q
  assume "Differ_diff_tables d g g q \<in> set tr"
  from diff_tables_differ_called_calls [OF run this]
  show "res = Inr (Some [])" by (auto simp: differ DiffTables_same)
next
  fix it
  assume pure: "table1 = table2 \<and>
     TableSegment env = (\<lambda>db path kwargs w. (TableSegment_spec db path kwargs, w)) \<and>
     (\<forall>u tc w. fst (connect_to_uri env u tc w) = conn u tc) \<and>
     (\<forall>n w. fst (parse_table_name env n w) = parse n)"
    and res: "res = Inr it"
  from run res pure have run': "diff_tables env table1 table1 kw s = (Inr it, s', tr)" by simp
  from diff_tables_ok [OF run'] obtain d g1 g2 where
    ev: "Differ_diff_tables d g1 g2 (Inr it) \<in> set tr" by auto
  from pure have "g1 = g2"
    by (intro diff_tables_same_ref_segments [OF run' ev, where conn = conn and parse = parse])
      blast+
  with diff_tables_differ_called_calls [OF run' ev]
  show "it = Some []" by (auto simp: differ DiffTables_same)
qed

theorem diff_tables_reflexive_witness:
  "fst (diff_tables spec_env 0 0 small_kwargs stub_state) = Inr (Some []) \<and>
   DiffTables stub_hash (concat \<circ> rev)
     \<lparr>bisectionFactor = 2, bisectionThreshold = 1, concurrent = False, maxWorkers = Some 1\<rparr>
     \<lparr>key_column = ''id'', update_column = None, extra_columns = [''rating''],
      start_key = None, end_key = None, min_time = None, max_time = None,
      source = stub_databases ''postgres:///'', tableIdentifier = ''Rating''\<rparr>
     \<lparr>key_column = ''id'', update_column = None, extra_columns = [''rating''],
      start_key = None, end_key = None, min_time = None, max_time = None,
      source = stub_databases ''postgres:///'', tableIdentifier = ''Rating''\<rparr> = Some []"
proof -
  let ?r = "diff_tables spec_env 0 0 small_kwargs stub_state"
  have differ: "differ_diff_tables spec_env =
      (\<lambda>d a b w. (Inr (DiffTables stub_hash (concat \<circ> rev) d a b), w))"
    by (simp add: spec_env_def)
  have pure: "(0::nat) = 0 \<and>
     TableSegment spec_env = (\<lambda>db path kwargs w. (TableSegment_spec db path kwargs, w)) \<and>
     (\<forall>u tc w. fst (connect_to_uri spec_env u tc w) = Inr (stub_databases u)) \<and>
     (\<forall>n w. fst (parse_table_name spec_env n w) = Inr n)"
    by (simp add: spec_env_def)
  have "\<not> isl (fst ?r)" by code_simp
  then obtain it where it: "fst ?r = Inr it" by (cases "fst ?r") auto
  then have run: "?r = (Inr it, fst (snd ?r), snd (snd ?r))" by (metis prod.collapse)
  note th = diff_tables_reflexive [OF differ run,
      where conn = "\<lambda>u tc. Inr (stub_databases u)" and parse = Inr]
  from th pure have "it = Some []" by blast
  with it th show ?thesis by blast
qed

text \<open>
  Claim C2.  In every invocation of \<open>diff_tables\<close>, every \<open>TableSegment\<close> that is
  constructed gets the same keyword arguments, the caller's \<open>key_column\<close>,
  \<open>update_column\<close>, \<open>extra_columns\<close>, \<open>start_key\<close>, \<open>end_key\<close>, \<open>min_time\<close> and
  \<open>max_time\<close>.  When the differ's \<open>diff_tables\<close> is called, its two arguments are the
  segments constructed from these bounds, and the sides differ only in the connection
  (opened for the \<open>db_uri\<close> of the side's \<open>TableRef\<close>) and the table path (parsed from
  its \<open>table_name\<close>).
\<close>

theorem diff_tables_same_logical_bounds:
  assumes "diff_tables env table1 table2 kw s = (res, s', tr)"
  shows "(\<forall>db p k g. New_TableSegment db p k g \<in> set tr \<longrightarrow> k = logical_bounds kw) \<and>
    (\<forall>d g1 g2 q. Differ_diff_tables d g1 g2 q \<in> set tr \<longrightarrow>
       (\<exists>db1 p1 db2 p2.
          tr = [Connect_to_uri (db_uri (heap s ! table1)) (db_thread_count kw) (Inr db1),
                Parse_table_name (table_name (heap s ! table1)) (Inr p1),
                New_TableSegment db1 p1 (logical_bounds kw) (Inr g1),
                Connect_to_uri (db_uri (heap s ! table2)) (db_thread_count kw) (Inr db2),
                Parse_table_name (table_name (heap s ! table2)) (Inr p2),
                New_TableSegment db2 p2 (logical_bounds kw) (Inr g2),
                New_TableDiffer (bisection_factor kw) (bisection_threshold kw) (debug kw)
                  (threaded kw) (max_threadpool_size kw) (Inr d),
                Differ_diff_tables d g1 g2 q]))"
proof (intro conjI allI impI)
  fix db p k g
  assume "New_TableSegment db p k g \<in> set tr"
  from diff_tables_event [OF assms this] show "k = logical_bounds kw" by auto
next
  fix d g1 g2 q
  assume "Differ_diff_tables d g1 g2 q \<in> set tr"
  from diff_tables_differ_called [OF assms this]
  show "\<exists>db1 p1 db2 p2.
          tr = [Connect_to_uri (db_uri (heap s ! table1)) (db_thread_count kw) (Inr db1),
                Parse_table_name (table_name (heap s ! table1)) (Inr p1),
                New_TableSegment db1 p1 (logical_bounds kw) (Inr g1),
                Connect_to_uri (db_uri (heap s ! table2)) (db_thread_count kw) (Inr db2),
                Parse_table_name (table_name (heap s ! table2)) (Inr p2),
                New_TableSegment db2 p2 (logical_bounds kw) (Inr g2),
                New_TableDiffer (bisection_factor kw) (bisection_threshold kw) (debug kw)
                  (threaded kw) (max_threadpool_size kw) (Inr d),
                Differ_diff_tables d g1 g2 q]" by blast
qed

theorem diff_tables_same_logical_bounds_witness:
  "New_TableSegment (0, ''postgres:///'', 1) ''Rating''
     \<lparr>key_column = ''id'', update_column = Some ''updated_at'', extra_columns = [''name''],
      start_key = Some 1, end_key = Some 100, min_time = Some 5, max_time = Some 50\<rparr>
     (Inr ((0, ''postgres:///'', 1), ''Rating'', logical_bounds bounded_kwargs))
   \<in> set (snd (snd (diff_tables stub_env 0 1 bounded_kwargs stub_state))) \<and>
   \<lparr>key_column = ''id'', update_column = Some ''updated_at'', extra_columns = [''name''],
      start_key = Some 1, end_key = Some 100, min_time = Some 5, max_time = Some 50\<rparr>
     = logical_bounds bounded_kwargs \<and>
   Differ_diff_tables (32, 16384, False, True, Some 1)
     ((0, ''postgres:///'', 1), ''Rating'', logical_bounds bounded_kwargs)
     ((1, ''mysql:///'', 1), ''Rating_copy'', logical_bounds bounded_kwargs)
     (fst (diff_tables stub_env 0 1 bounded_kwargs stub_state))
   \<in> set (snd (snd (diff_tables stub_env 0 1 bounded_kwargs stub_state))) \<and>
   (\<exists>db1 p1 db2 p2. snd (snd (diff_tables stub_env 0 1 bounded_kwargs stub_state)) =
      [Connect_to_uri (db_uri (heap stub_state ! 0)) (db_thread_count bounded_kwargs) (Inr db1),
       Parse_table_name (table_name (heap stub_state ! 0)) (Inr p1),
       New_TableSegment db1 p1 (logical_bounds bounded_kwargs)
         (Inr ((0, ''postgres:///'', 1), ''Rating'', logical_bounds bounded_kwargs)),
       Connect_to_uri (db_uri (heap stub_state ! 1)) (db_thread_count bounded_kwargs) (Inr db2),
       Parse_table_name (table_name (heap stub_state ! 1)) (Inr p2),
       New_TableSegment db2 p2 (logical_bounds bounded_kwargs)
         (Inr ((1, ''mysql:///'', 1), ''Rating_copy'', logical_bounds bounded_kwargs)),
       New_TableDiffer (bisection_factor bounded_kwargs) (bisection_threshold bounded_kwargs)
         (debug bounded_kwargs) (threaded bounded_kwargs) (max_threadpool_size bounded_kwargs)
         (Inr (32, 16384, False, True, Some 1)),
       Differ_diff_tables (32, 16384, False, True, Some 1)
         ((0, ''postgres:///'', 1), ''Rating'', logical_bounds bounded_kwargs)
         ((1, ''mysql:///'', 1), ''Rating_copy'', logical_bounds bounded_kwargs)
         (fst (diff_tables stub_env 0 1 bounded_kwargs stub_state))])"
  (is "?seg \<in> set ?tr \<and> ?k = _ \<and> ?dif \<in> _ \<and> ?shape")
proof -
  let ?r = "diff_tables stub_env 0 1 bounded_kwargs stub_state"
  have run: "?r = (fst ?r, fst (snd ?r), snd (snd ?r))" by simp
  note th = diff_tables_same_logical_bounds [OF run]
  have seg: "?seg \<in> set ?tr" by (simp add: run_defs bounded_kwargs_def)
  have dif: "?dif \<in> set ?tr" by (simp add: run_defs bounded_kwargs_def)
  from th seg have k: "?k = logical_bounds bounded_kwargs" by blast
  from th dif have shape: ?shape by blast
  from seg k dif shape show ?thesis by (intro conjI)
qed




text \<open>
  Claim C4 says that leaving \<open>max_threadpool_size\<close> out is the same as passing \<open>None\<close>.
  It is not: the default is 1 (line 54), and the differ is constructed with 1.
\<close>

theorem diff_tables_max_threadpool_size_counterexample:
  "diff_tables stub_env 0 1 (defaults stub_env) stub_state \<noteq>
   diff_tables stub_env 0 1 ((defaults stub_env)\<lparr>max_threadpool_size := None\<rparr>) stub_state"
  by (simp add: run_defs)

text \<open>
  Claim C4, amended.  The differ is constructed with the \<open>max_threadpool_size\<close> of the
  call, unchanged: \<open>None\<close> when the caller passes \<open>None\<close>, and 1, the default, when the
  caller leaves the argument out.
\<close>

theorem diff_tables_max_threadpool_size:
  assumes "diff_tables env table1 table2 kw s = (res, s', tr)"
  shows "(\<forall>bf bt dbg thr m d. New_TableDiffer bf bt dbg thr m d \<in> set tr \<longrightarrow>
            m = max_threadpool_size kw) \<and>
         max_threadpool_size (defaults env) = Some 1"
proof (intro conjI allI impI)
  fix bf bt dbg thr m d
  assume "New_TableDiffer bf bt dbg thr m d \<in> set tr"
  from diff_tables_event [OF assms this] show "m = max_threadpool_size kw" by auto
next
  show "max_threadpool_size (defaults env) = Some 1" by (simp add: defaults_def)
qed

theorem diff_tables_max_threadpool_size_witness:
  "New_TableDiffer 32 16384 False True (Some 1) (Inr (32, 16384, False, True, Some 1))
     \<in> set (snd (snd (diff_tables stub_env 0 1 (defaults stub_env) stub_state))) \<and>
   Some 1 = max_threadpool_size (defaults stub_env) \<and>
   New_TableDiffer 32 16384 False True None (Inr (32, 16384, False, True, None))
     \<in> set (snd (snd (diff_tables stub_env 0 1
          ((defaults stub_env)\<lparr>max_threadpool_size := None\<rparr>) stub_state))) \<and>
   None = max_threadpool_size ((defaults stub_env)\<lparr>max_threadpool_size := None\<rparr>)"
  (is "?d1 \<in> set ?tr1 \<and> ?m1 \<and> ?d2 \<in> set ?tr2 \<and> ?m2")
proof -
  let ?r1 = "diff_tables stub_env 0 1 (defaults stub_env) stub_state"
  let ?r2 = "diff_tables stub_env 0 1 ((defaults stub_env)\<lparr>max_threadpool_size := None\<rparr>) stub_state"
  have run1: "?r1 = (fst ?r1, fst (snd ?r1), snd (snd ?r1))" by simp
  have run2: "?r2 = (fst ?r2, fst (snd ?r2), snd (snd ?r2))" by simp
  have d1: "?d1 \<in> set ?tr1" and d2: "?d2 \<in> set ?tr2" by (simp_all add: run_defs)
  from diff_tables_max_threadpool_size [OF run1] d1 have m1: ?m1 by blast
  from diff_tables_max_threadpool_size [OF run2] d2 have m2: ?m2 by blast
  from d1 m1 d2 m2 show ?thesis by (intro conjI)
qed

text \<open>
  Claim C5.  With the constructor of the differ as modelled: a call of \<open>diff_tables\<close>
  with \<open>bisection_factor < 2\<close> or \<open>bisection_threshold < 1\<close> fails, and the differ's
  \<open>diff_tables\<close> is never called, so no range is compared and no record produced; if the
  construction of the differ is reached (both segments were constructed), it is the last
  call and the one that fails, with a PreconditionViolation.  With \<open>bisection_factor \<ge> 2\<close>
  and \<open>bisection_threshold \<ge> 1\<close> the construction succeeds whenever it is reached.
\<close>

theorem diff_tables_rejects_bad_bisection:
  assumes differ: "TableDiffer env = (\<lambda>bf bt dbg thr mts w. (TableDiffer_spec bf bt dbg thr mts, w))"
    and run: "diff_tables env table1 table2 kw s = (res, s', tr)"
  shows "(bisection_factor kw < 2 \<or> bisection_threshold kw < 1 \<longrightarrow>
            (\<exists>e. res = Inl e) \<and>
            (\<forall>ev\<in>set tr. \<not> is_Differ_diff_tables ev) \<and>
            (\<forall>ev\<in>set tr. is_New_TableDiffer ev \<longrightarrow>
               ev = New_TableDiffer (bisection_factor kw) (bisection_threshold kw) (debug kw)
                      (threaded kw) (max_threadpool_size kw) (Inl PreconditionViolation) \<and>
               res = Inl PreconditionViolation \<and> last tr = ev)) \<and>
         (2 \<le> bisection_factor kw \<and> 1 \<le> bisection_threshold kw \<longrightarrow>
            (\<forall>ev\<in>set tr. is_New_TableDiffer ev \<longrightarrow>
               ev = New_TableDiffer (bisection_factor kw) (bisection_threshold kw) (debug kw)
                      (threaded kw) (max_threadpool_size kw)
                      (Inr \<lparr>bisectionFactor = bisection_factor kw,
                            bisectionThreshold = bisection_threshold kw,
                            concurrent = threaded kw,
                            maxWorkers = max_threadpool_size kw\<rparr>)))"
  using run
proof (cases rule: diff_tables_elim)
  case (segment1_fails e)
  then show ?thesis
    by (auto dest: create_table_segment_events)
next
  case (segment2_fails g1 s1 tr1 e tr2)
  then show ?thesis
    by (auto dest: create_table_segment_events)
next
  case (differ_fails g1 s1 tr1 g2 s2 tr2 e)
  then show ?thesis
    using create_table_segment_ok [OF differ_fails(1)] create_table_segment_ok [OF differ_fails(2)]
    by (auto simp: differ TableDiffer_spec_def split: if_splits)
next
  case (differ_runs g1 s1 tr1 g2 s2 tr2 d w)
  then show ?thesis
    using create_table_segment_ok [OF differ_runs(1)] create_table_segment_ok [OF differ_runs(2)]
    by (auto simp: differ TableDiffer_spec_def split: if_splits)
qed

theorem diff_tables_rejects_bad_bisection_witness:
  "fst (diff_tables spec_env 0 1 (small_kwargs\<lparr>bisection_factor := 1\<rparr>) stub_state) =
     Inl PreconditionViolation \<and>
   list_ex is_New_TableDiffer
     (snd (snd (diff_tables spec_env 0 1 (small_kwargs\<lparr>bisection_factor := 1\<rparr>) stub_state))) \<and>
   \<not> list_ex is_Differ_diff_tables
     (snd (snd (diff_tables spec_env 0 1 (small_kwargs\<lparr>bisection_factor := 1\<rparr>) stub_state))) \<and>
   New_TableDiffer 2 1 False False (Some 1)
     (Inr \<lparr>bisectionFactor = 2, bisectionThreshold = 1, concurrent = False, maxWorkers = Some 1\<rparr>)
   \<in> set (snd (snd (diff_tables spec_env 0 1 small_kwargs stub_state)))"
proof -
  let ?bad = "small_kwargs\<lparr>bisection_factor := 1\<rparr>"
  let ?r = "diff_tables spec_env 0 1 ?bad stub_state"
  let ?r' = "diff_tables spec_env 0 1 small_kwargs stub_state"
  have differ: "TableDiffer spec_env = (\<lambda>bf bt dbg thr mts w. (TableDiffer_spec bf bt dbg thr mts, w))"
    by (simp add: spec_env_def)
  have run: "?r = (fst ?r, fst (snd ?r), snd (snd ?r))" by simp
  have run': "?r' = (fst ?r', fst (snd ?r'), snd (snd ?r'))" by simp
  have bad: "bisection_factor ?bad < 2 \<or> bisection_threshold ?bad < 1"
    by (simp add: small_kwargs_def)
  have good: "2 \<le> bisection_factor small_kwargs \<and> 1 \<le> bisection_threshold small_kwargs"
    by (simp add: small_kwargs_def)
  have made: "list_ex is_New_TableDiffer (snd (snd ?r))" by code_simp
  have made': "list_ex is_New_TableDiffer (snd (snd ?r'))" by code_simp
  from made obtain ev where ev: "ev \<in> set (snd (snd ?r))" "is_New_TableDiffer ev"
    by (auto simp: list_ex_iff)
  from made' obtain ev' where ev': "ev' \<in> set (snd (snd ?r'))" "is_New_TableDiffer ev'"
    by (auto simp: list_ex_iff)
  from diff_tables_rejects_bad_bisection [OF differ run] bad ev
  have 1: "fst ?r = Inl PreconditionViolation"
    and 2: "\<not> list_ex is_Differ_diff_tables (snd (snd ?r))"
    unfolding list_ex_iff by blast+
  from diff_tables_rejects_bad_bisection [OF differ run'] good ev'
  have "New_TableDiffer (bisection_factor small_kwargs) (bisection_threshold small_kwargs)
      (debug small_kwargs) (threaded small_kwargs) (max_threadpool_size small_kwargs)
      (Inr \<lparr>bisectionFactor = bisection_factor small_kwargs,
            bisectionThreshold = bisection_threshold small_kwargs,
            concurrent = threaded small_kwargs,
            maxWorkers = max_threadpool_size small_kwargs\<rparr>) \<in> set (snd (snd ?r'))"
    by blast
  then have 3: "New_TableDiffer 2 1 False False (Some 1)
     (Inr \<lparr>bisectionFactor = 2, bisectionThreshold = 1, concurrent = False, maxWorkers = Some 1\<rparr>)
     \<in> set (snd (snd ?r'))"
    by (simp add: small_kwargs_def defaults_def)
  from 1 made 2 3 show ?thesis by (intro conjI)
qed

text \<open>
  Claim C6.  With the constructor of the table segment as modelled: a call of
  \<open>diff_tables\<close> with both \<open>start_key\<close> and \<open>end_key\<close> set and \<open>start_key \<ge> end_key\<close> fails;
  no differ is constructed and the differ's \<open>diff_tables\<close> is never called; if the
  construction of a segment is reached (the connection was opened and the table name
  parsed), it is the last call and the one that fails, with a PreconditionViolation.
  Every segment that is constructed has \<open>start_key < end_key\<close> when both are set.
\<close>

theorem diff_tables_rejects_malformed_range:
  assumes segment: "TableSegment env = (\<lambda>db path kwargs w. (TableSegment_spec db path kwargs, w))"
    and run: "diff_tables env table1 table2 kw s = (res, s', tr)"
  shows "(\<forall>a b. start_key kw = Some a \<and> end_key kw = Some b \<and> a \<ge> b \<longrightarrow>
            (\<exists>e. res = Inl e) \<and>
            (\<forall>ev\<in>set tr. \<not> is_New_TableDiffer ev \<and> \<not> is_Differ_diff_tables ev) \<and>
            (\<forall>ev\<in>set tr. is_New_TableSegment ev \<longrightarrow>
               (\<exists>db p. ev = New_TableSegment db p (logical_bounds kw) (Inl PreconditionViolation)) \<and>
               res = Inl PreconditionViolation \<and> last tr = ev)) \<and>
         (\<forall>db p k v a b. New_TableSegment db p k (Inr v) \<in> set tr \<and>
            start_key v = Some a \<and> end_key v = Some b \<longrightarrow> a < b)"
proof (intro conjI allI impI)
  fix db p k v a b
  assume h: "New_TableSegment db p k (Inr v) \<in> set tr \<and> start_key v = Some a \<and> end_key v = Some b"
  with diff_tables_event [OF run, of "New_TableSegment db p k (Inr v)"]
  have "TableSegment_spec db p k = Inr v" by (auto simp: segment)
  with h show "a < b"
    by (auto simp: TableSegment_spec_def malformed_range_def split: if_splits option.splits)
next
  fix a b
  assume bad: "start_key kw = Some a \<and> end_key kw = Some b \<and> a \<ge> b"
  then have mal: "malformed_range (logical_bounds kw)"
    by (simp add: malformed_range_def logical_bounds_def)
  have seg: "\<And>db p w. TableSegment env db p (logical_bounds kw) w = (Inl PreconditionViolation, w)"
    by (simp add: segment TableSegment_spec_def mal)
  { fix g s1 tr1 r assume "create_table_segment env r (db_thread_count kw) (logical_bounds kw) s = (Inr g, s1, tr1)"
    from create_table_segment_ok [OF this] seg have False by auto }
  note no_seg = this
  from run have "(\<exists>e. res = Inl e \<and> create_table_segment env table1 (db_thread_count kw) (logical_bounds kw) s = (Inl e, s', tr))"
    by (cases rule: diff_tables_elim) (auto dest: no_seg)
  then obtain e where e: "res = Inl e"
    and c: "create_table_segment env table1 (db_thread_count kw) (logical_bounds kw) s = (Inl e, s', tr)"
    by blast
  show "\<exists>e. res = Inl e" using e by blast
  show "\<forall>ev\<in>set tr. \<not> is_New_TableDiffer ev \<and> \<not> is_Differ_diff_tables ev"
    using create_table_segment_events [OF c] by fastforce
  show "\<forall>ev\<in>set tr. is_New_TableSegment ev \<longrightarrow>
               (\<exists>db p. ev = New_TableSegment db p (logical_bounds kw) (Inl PreconditionViolation)) \<and>
               res = Inl PreconditionViolation \<and> last tr = ev"
    using create_table_segment_cases [OF c] e seg by auto
qed

theorem diff_tables_rejects_malformed_range_witness:
  "fst (diff_tables spec_env 0 1 (small_kwargs\<lparr>start_key := Some 5, end_key := Some 5\<rparr>) stub_state) =
     Inl PreconditionViolation \<and>
   list_ex is_New_TableSegment (snd (snd (diff_tables spec_env 0 1
     (small_kwargs\<lparr>start_key := Some 5, end_key := Some 5\<rparr>) stub_state))) \<and>
   \<not> list_ex is_New_TableDiffer (snd (snd (diff_tables spec_env 0 1
     (small_kwargs\<lparr>start_key := Some 5, end_key := Some 5\<rparr>) stub_state))) \<and>
   \<not> list_ex is_Differ_diff_tables (snd (snd (diff_tables spec_env 0 1
     (small_kwargs\<lparr>start_key := Some 5, end_key := Some 5\<rparr>) stub_state))) \<and>
   New_TableSegment (stub_databases ''postgres:///'') ''Rating''
     (logical_bounds (small_kwargs\<lparr>start_key := Some 2, end_key := Some 5\<rparr>))
     (Inr \<lparr>key_column = ''id'', update_column = None, extra_columns = [''rating''],
           start_key = Some 2, end_key = Some 5, min_time = None, max_time = None,
           source = stub_databases ''postgres:///'', tableIdentifier = ''Rating''\<rparr>)
   \<in> set (snd (snd (diff_tables spec_env 0 1
        (small_kwargs\<lparr>start_key := Some 2, end_key := Some 5\<rparr>) stub_state))) \<and>
   (2::int) < 5"
  (is "?res \<and> ?seg \<and> ?nodiffer \<and> ?nodiff \<and> ?view \<in> _ \<and> ?lt")
proof -
  let ?bad = "small_kwargs\<lparr>start_key := Some 5, end_key := Some 5\<rparr>"
  let ?ok = "small_kwargs\<lparr>start_key := Some 2, end_key := Some 5\<rparr>"
  let ?r = "diff_tables spec_env 0 1 ?bad stub_state"
  let ?r' = "diff_tables spec_env 0 1 ?ok stub_state"
  have segment: "TableSegment spec_env = (\<lambda>db path kwargs w. (TableSegment_spec db path kwargs, w))"
    by (simp add: spec_env_def)
  have run: "?r = (fst ?r, fst (snd ?r), snd (snd ?r))" by simp
  have run': "?r' = (fst ?r', fst (snd ?r'), snd (snd ?r'))" by simp
  have bad: "start_key ?bad = Some 5 \<and> end_key ?bad = Some 5 \<and> (5::int) \<ge> 5" by simp
  have seg: ?seg by code_simp
  then obtain ev where ev: "ev \<in> set (snd (snd ?r))" "is_New_TableSegment ev"
    by (auto simp: list_ex_iff)
  from diff_tables_rejects_malformed_range [OF segment run] bad ev
  have 1: ?res and 2: ?nodiffer and 3: ?nodiff
    unfolding list_ex_iff by blast+
  have view: "?view \<in> set (snd (snd ?r'))" by (simp add: spec_run_defs)
  from diff_tables_rejects_malformed_range [OF segment run'] view
  have lt: ?lt by simp
  from 1 seg 2 3 view lt show ?thesis by (intro conjI)
qed

text \<open>
  Claim C7.  With the differ and its constructor as modelled: the records of the
  sequence that a call of \<open>diff_tables\<close> with \<open>threaded = False\<close> returns are in ascending
  order of their keys.  The sequence is finite whenever the key column is unique in
  both views.
\<close>

theorem diff_tables_sequential_order:
  assumes differ: "differ_diff_tables env = (\<lambda>d a b w. (Inr (DiffTables h sched d a b), w))"
    and make: "TableDiffer env = (\<lambda>bf bt dbg thr mts w. (TableDiffer_spec bf bt dbg thr mts, w))"
    and seq: "\<not> threaded kw"
    and run: "diff_tables env table1 table2 kw s = (res, s', tr)"
  shows "(\<forall>out. res = Inr (Some out) \<longrightarrow> sorted (map difference_key out)) \<and>
    (\<forall>d g1 g2 q. Differ_diff_tables d g1 g2 q \<in> set tr \<and> unique_keys g1 \<and> unique_keys g2 \<longrightarrow>
       (\<exists>out. res = Inr (Some out)))"
proof (intro conjI allI impI)
  fix out
  assume res: "res = Inr (Some out)"
  with run have run': "diff_tables env table1 table2 kw s = (Inr (Some out), s', tr)" by simp
  from diff_tables_ok [OF run'] obtain d g1 g2 where
    ev: "Differ_diff_tables d g1 g2 (Inr (Some out)) \<in> set tr" by auto
  from diff_tables_differ_called_calls [OF run' ev]
  have d: "TableDiffer_spec (bisection_factor kw) (bisection_threshold kw) (debug kw)
       (threaded kw) (max_threadpool_size kw) = Inr d"
    and out: "DiffTables h sched d g1 g2 = Some out"
    by (auto simp: differ make)
  from d seq have "\<not> concurrent d" by (auto simp: TableDiffer_spec_def split: if_splits)
  from DiffTables_sequential_sorted [OF this out] show "sorted (map difference_key out)" by blast
next
  fix d g1 g2 q
  assume h: "Differ_diff_tables d g1 g2 q \<in> set tr \<and> unique_keys g1 \<and> unique_keys g2"
  then have ev: "Differ_diff_tables d g1 g2 q \<in> set tr" by blast
  from diff_tables_differ_called_calls [OF run ev]
  have d: "TableDiffer_spec (bisection_factor kw) (bisection_threshold kw) (debug kw)
       (threaded kw) (max_threadpool_size kw) = Inr d"
    and res: "res = Inr (DiffTables h sched d g1 g2)"
    by (auto simp: differ make)
  from d have "2 \<le> bisectionFactor d" "1 \<le> bisectionThreshold d"
    by (auto simp: TableDiffer_spec_def split: if_splits)
  from DiffTables_returns [OF this, of g1 g2 h sched] h res
  show "\<exists>out. res = Inr (Some out)" by auto
qed

theorem diff_tables_sequential_order_witness:
  "fst (diff_tables spec_env 0 1 small_kwargs stub_state) =
     Inr (Some [Removed (2, None, [3]), Changed (4, None, [1]) (4, None, [2]), Added (6, None, [2])]) \<and>
   sorted (map difference_key
     [Removed (2, None, [3]), Changed (4, None, [1]) (4, None, [2]), Added (6, None, [2])]) \<and>
   unique_keys
     \<lparr>key_column = ''id'', update_column = None, extra_columns = [''rating''],
      start_key = None, end_key = None, min_time = None, max_time = None,
      source = stub_databases ''postgres:///'', tableIdentifier = ''Rating''\<rparr> \<and>
   unique_keys
     \<lparr>key_column = ''id'', update_column = None, extra_columns = [''rating''],
      start_key = None, end_key = None, min_time = None, max_time = None,
      source = stub_databases ''mysql:///'', tableIdentifier = ''Rating_copy''\<rparr> \<and>
   (\<exists>out. fst (diff_tables spec_env 0 1 small_kwargs stub_state) = Inr (Some out))"
  (is "fst ?r = Inr (Some ?out) \<and> ?sorted \<and> unique_keys ?g1 \<and> unique_keys ?g2 \<and> ?returns")
proof -
  let ?d = "\<lparr>bisectionFactor = 2, bisectionThreshold = 1, concurrent = False, maxWorkers = Some 1\<rparr>"
  have differ: "differ_diff_tables spec_env =
      (\<lambda>d a b w. (Inr (DiffTables stub_hash (concat \<circ> rev) d a b), w))"
    and make: "TableDiffer spec_env = (\<lambda>bf bt dbg thr mts w. (TableDiffer_spec bf bt dbg thr mts, w))"
    by (simp_all add: spec_env_def)
  have seq: "\<not> threaded small_kwargs" by (simp add: small_kwargs_def)
  have res: "fst ?r = Inr (Some ?out)" by code_simp
  have run: "?r = (fst ?r, fst (snd ?r), snd (snd ?r))" by simp
  note th = diff_tables_sequential_order [OF differ make seq run]
  from th res have sorted: ?sorted by blast
  have u1: "unique_keys ?g1" and u2: "unique_keys ?g2" by code_simp+
  have called: "Differ_diff_tables ?d ?g1 ?g2 (fst ?r) \<in> set (snd (snd ?r))"
    by (simp add: spec_run_defs)
  from th called u1 u2 have returns: ?returns by blast
  from res sorted u1 u2 returns show ?thesis by (intro conjI)
qed

text \<open>
  Claim C8.  A call of \<open>diff_tables\<close> that returns an iterator has called
  \<open>connect_to_uri\<close> exactly twice, once for the \<open>db_uri\<close> of each \<open>TableRef\<close> argument and
  in that order, and has constructed two table segments, each on the connection of its
  own call; all of it before the differ's \<open>diff_tables\<close> produces the iterator.  Each
  call runs in the world that the call before it left: the second connection is opened
  after the first segment was constructed.  Nothing requires the two references to
  differ: \<open>diff_tables(t, t)\<close> opens two connections as well.
\<close>

theorem diff_tables_opens_two_connections:
  assumes "diff_tables env table1 table2 kw s = (Inr it, s', tr)"
  shows "\<exists>db1 p1 g1 db2 p2 g2 d w1 w2 w3 w4 w5 w6 w7.
     connect_to_uri env (db_uri (heap s ! table1)) (db_thread_count kw) (world s) = (Inr db1, w1) \<and>
     parse_table_name env (table_name (heap s ! table1)) w1 = (Inr p1, w2) \<and>
     TableSegment env db1 p1 (logical_bounds kw) w2 = (Inr g1, w3) \<and>
     connect_to_uri env (db_uri (heap s ! table2)) (db_thread_count kw) w3 = (Inr db2, w4) \<and>
     parse_table_name env (table_name (heap s ! table2)) w4 = (Inr p2, w5) \<and>
     TableSegment env db2 p2 (logical_bounds kw) w5 = (Inr g2, w6) \<and>
     TableDiffer env (bisection_factor kw) (bisection_threshold kw) (debug kw) (threaded kw)
       (max_threadpool_size kw) w6 = (Inr d, w7) \<and>
     differ_diff_tables env d g1 g2 w7 = (Inr it, world s') \<and>
     tr = [Connect_to_uri (db_uri (heap s ! table1)) (db_thread_count kw) (Inr db1),
           Parse_table_name (table_name (heap s ! table1)) (Inr p1),
           New_TableSegment db1 p1 (logical_bounds kw) (Inr g1),
           Connect_to_uri (db_uri (heap s ! table2)) (db_thread_count kw) (Inr db2),
           Parse_table_name (table_name (heap s ! table2)) (Inr p2),
           New_TableSegment db2 p2 (logical_bounds kw) (Inr g2),
           New_TableDiffer (bisection_factor kw) (bisection_threshold kw) (debug kw)
             (threaded kw) (max_threadpool_size kw) (Inr d),
           Differ_diff_tables d g1 g2 (Inr it)] \<and>
     length (filter is_Connect_to_uri tr) = 2 \<and>
     length (filter is_New_TableSegment tr) = 2"
proof -
  from diff_tables_calls [OF assms] obtain db1 p1 g1 db2 p2 g2 d w1 w2 w3 w4 w5 w6 w7 where
    c: "connect_to_uri env (db_uri (heap s ! table1)) (db_thread_count kw) (world s) = (Inr db1, w1)"
      "parse_table_name env (table_name (heap s ! table1)) w1 = (Inr p1, w2)"
      "TableSegment env db1 p1 (logical_bounds kw) w2 = (Inr g1, w3)"
      "connect_to_uri env (db_uri (heap s ! table2)) (db_thread_count kw) w3 = (Inr db2, w4)"
      "parse_table_name env (table_name (heap s ! table2)) w4 = (Inr p2, w5)"
      "TableSegment env db2 p2 (logical_bounds kw) w5 = (Inr g2, w6)"
      "TableDiffer env (bisection_factor kw) (bisection_threshold kw) (debug kw) (threaded kw)
         (max_threadpool_size kw) w6 = (Inr d, w7)"
      "differ_diff_tables env d g1 g2 w7 = (Inr it, world s')"
    and tr: "tr = [Connect_to_uri (db_uri (heap s ! table1)) (db_thread_count kw) (Inr db1),
           Parse_table_name (table_name (heap s ! table1)) (Inr p1),
           New_TableSegment db1 p1 (logical_bounds kw) (Inr g1),
           Connect_to_uri (db_uri (heap s ! table2)) (db_thread_count kw) (Inr db2),
           Parse_table_name (table_name (heap s ! table2)) (Inr p2),
           New_TableSegment db2 p2 (logical_bounds kw) (Inr g2),
           New_TableDiffer (bisection_factor kw) (bisection_threshold kw) (debug kw)
             (threaded kw) (max_threadpool_size kw) (Inr d),
           Differ_diff_tables d g1 g2 (Inr it)]"
    by blast
  have two: "length (filter is_Connect_to_uri tr) = 2"
    "length (filter is_New_TableSegment tr) = 2"
    by (simp_all add: tr)
  note facts = c tr two
  show ?thesis by (rule exI conjI facts)+
qed

theorem diff_tables_opens_two_connections_witness:
  "fst (diff_tables stub_env 0 0 (defaults stub_env) stub_state) =
     Inr ((32, 16384, False, True, Some 1),
          ((0, ''postgres:///'', 1), ''Rating'', logical_bounds (defaults stub_env)),
          ((1, ''postgres:///'', 1), ''Rating'', logical_bounds (defaults stub_env))) \<and>
   filter is_Connect_to_uri (snd (snd (diff_tables stub_env 0 0 (defaults stub_env) stub_state))) =
     [Connect_to_uri ''postgres:///'' 1 (Inr (0, ''postgres:///'', 1)),
      Connect_to_uri ''postgres:///'' 1 (Inr (1, ''postgres:///'', 1))] \<and>
   length (filter is_Connect_to_uri
     (snd (snd (diff_tables stub_env 0 0 (defaults stub_env) stub_state)))) = 2 \<and>
   length (filter is_New_TableSegment
     (snd (snd (diff_tables stub_env 0 0 (defaults stub_env) stub_state)))) = 2"
  (is "fst ?r = Inr ?it \<and> ?conns \<and> ?two_conns \<and> ?two_segs")
proof -
  have res: "fst ?r = Inr ?it" by (simp add: run_defs)
  then have run: "?r = (Inr ?it, fst (snd ?r), snd (snd ?r))" by (metis prod.collapse)
  have conns: ?conns by (simp add: run_defs)
  from diff_tables_opens_two_connections [OF run] have "?two_conns \<and> ?two_segs" by blast
  with res conns show ?thesis by blast
qed



text \<open>
  Claim C10.  \<open>diff_tables\<close> leaves the store of \<open>TableRef\<close> objects as it found it,
  whatever the collaborators do and whether the call returns or raises: after the call
  the attributes \<open>db_uri\<close> and \<open>table_name\<close> of both arguments are what \<open>__init__\<close>
  stored.  The two arguments may be the same object.
\<close>

theorem diff_tables_keeps_TableRefs:
  assumes "TableRef_init uri1 name1 s0 = (table1, s1)"
    and "TableRef_init uri2 name2 s1 = (table2, s2)"
    and "a \<in> {table1, table2}" and "b \<in> {table1, table2}"
    and "diff_tables env a b kw s2 = (res, s', tr)"
  shows "heap s' = heap s2 \<and>
    heap s' ! table1 = \<lparr>db_uri = uri1, table_name = name1\<rparr> \<and>
    heap s' ! table2 = \<lparr>db_uri = uri2, table_name = name2\<rparr>"
proof -
  have "heap s' = heap s2" using assms(5) by (rule diff_tables_heap)
  moreover have "heap s2 ! table1 = \<lparr>db_uri = uri1, table_name = name1\<rparr>"
    and "heap s2 ! table2 = \<lparr>db_uri = uri2, table_name = name2\<rparr>"
    using assms(1,2) by (auto simp: TableRef_init_def nth_append)
  ultimately show ?thesis by simp
qed

theorem diff_tables_keeps_TableRefs_witness:
  "TableRef_init ''postgres:///'' ''Rating'' \<lparr>heap = [], world = 0::nat\<rparr> =
     (0, \<lparr>heap = [\<lparr>db_uri = ''postgres:///'', table_name = ''Rating''\<rparr>], world = 0\<rparr>) \<and>
   TableRef_init ''mysql:///'' ''Rating_copy''
     \<lparr>heap = [\<lparr>db_uri = ''postgres:///'', table_name = ''Rating''\<rparr>], world = 0::nat\<rparr> =
     (1, stub_state) \<and>
   heap (fst (snd (diff_tables stub_env 0 0 (defaults stub_env) stub_state))) = heap stub_state \<and>
   heap (fst (snd (diff_tables stub_env 0 0 (defaults stub_env) stub_state))) ! 0 =
     \<lparr>db_uri = ''postgres:///'', table_name = ''Rating''\<rparr> \<and>
   heap (fst (snd (diff_tables stub_env 0 0 (defaults stub_env) stub_state))) ! 1 =
     \<lparr>db_uri = ''mysql:///'', table_name = ''Rating_copy''\<rparr> \<and>
   world (fst (snd (diff_tables stub_env 0 0 (defaults stub_env) stub_state))) = 2"
  (is "?i1 \<and> ?i2 \<and> _ \<and> _ \<and> _ \<and> ?w")
proof -
  let ?r = "diff_tables stub_env 0 0 (defaults stub_env) stub_state"
  have run: "?r = (fst ?r, fst (snd ?r), snd (snd ?r))" by simp
  have i1: ?i1 and i2: ?i2 by (simp_all add: TableRef_init_def stub_state_def)
  have w: ?w by (simp add: run_defs)
  have m: "(0::nat) \<in> {0, 1}" by simp
  note th = diff_tables_keeps_TableRefs [OF i1 i2 m m run]
  from i1 i2 th w show ?thesis by blast
qed

end
